theory Spec2Isabelle
  imports Complex_Main "HOL-Library.List_Lexorder" "HOL-Library.Char_ord"
begin

section \<open>JavaScript objects as ordered own-property lists\<close>

text \<open>
  \<^verbatim>\<open>WorldState.js\<close> stores one property per variable on the instance itself
  (\<^verbatim>\<open>this[b.variableId] = ...\<close>) and reads the instance back with
  \<^verbatim>\<open>Object.values(this)\<close>. The observable content of an instance is therefore the
  list of its own enumerable properties in enumeration order: the keys that are array
  indices (canonical decimal strings below \<open>2^32 - 1\<close>) in ascending numeric order,
  followed by all other string keys in the order in which they were first created.
  Assigning to a key that exists replaces the value and keeps the position.
\<close>

type_synonym 'v props = "(string \<times> 'v) list"

definition is_digit :: "char \<Rightarrow> bool" where
  "is_digit c = (48 \<le> (of_char c :: nat) \<and> (of_char c :: nat) \<le> 57)"

definition digit_val :: "char \<Rightarrow> nat" where
  "digit_val c = of_char c - 48"

definition dec_val :: "string \<Rightarrow> nat" where
  "dec_val k = foldl (\<lambda>n c. 10 * n + digit_val c) 0 k"

definition is_array_index :: "string \<Rightarrow> bool" where
  "is_array_index k =
     (k \<noteq> [] \<and> list_all is_digit k \<and> (if hd k = CHR ''0'' then length k = 1 else True)
      \<and> dec_val k < 4294967295)"

fun insert_index :: "string \<Rightarrow> 'v \<Rightarrow> 'v props \<Rightarrow> 'v props" where
  "insert_index k v [] = [(k, v)]"
| "insert_index k v (p # ps) =
     (if is_array_index (fst p) \<and> dec_val (fst p) < dec_val k
      then p # insert_index k v ps
      else (k, v) # p # ps)"

fun replace_value :: "string \<Rightarrow> 'v \<Rightarrow> 'v props \<Rightarrow> 'v props" where
  "replace_value k v [] = []"
| "replace_value k v (p # ps) =
     (if fst p = k then (k, v) # ps else p # replace_value k v ps)"

definition define_own :: "string \<Rightarrow> 'v \<Rightarrow> 'v props \<Rightarrow> 'v props" where
  "define_own k v ps =
     (if k \<in> set (map fst ps) then replace_value k v ps
      else if is_array_index k then insert_index k v ps
      else ps @ [(k, v)])"

fun join :: "string \<Rightarrow> string list \<Rightarrow> string" where
  "join sep [] = []"
| "join sep [x] = x"
| "join sep (x # y # ys) = x @ sep @ join sep (y # ys)"


section \<open>WorldState.js\<close>

text \<open>
  \<^verbatim>\<open>
  class WorldState {
    constructor( input ){
      const variables = input.variables
      const bs = input.conditions || input.variableValues || []
      if (!Array.isArray(bs)) {
        for ( const b of Object.values(bs)) {
          const v = new VariableValue({...b, variables} )
          this[v.variableId] = v
        }
      } else {
        for ( const b of bs) this[b.variableId] = new VariableValue({...b, variables})
      }
    }
    get id() { return `{${Object.values(this).map(x=> x.id).join(',')}}` }
    toGraphQL() { return Object.values(this).map( x => x.toGraphQL() ) }
  }
  \<close>

  The class \<^verbatim>\<open>VariableValue\<close> is required from \<^verbatim>\<open>./VariableValue\<close>, which is not part of
  the sources at hand. Its constructor, its \<^verbatim>\<open>id\<close> and its \<^verbatim>\<open>toGraphQL\<close> method are
  therefore parameters of the definitions below (\<open>newVV\<close>, \<open>vvId\<close>, \<open>vvToGraphQL\<close>), and so
  is what an assignment does that is looked up on a \<^verbatim>\<open>VariableValue\<close> (\<open>put\<close>, see
  below). Bindings and \<^verbatim>\<open>VariableValue\<close> instances both carry a \<^verbatim>\<open>variableId\<close>; they are
  modelled as extensions of the record \<open>keyed\<close>.
\<close>

datatype 'e failure = TypeError | Thrown 'e

record keyed =
  variableId :: string

text \<open>
  An instance is its list of own properties together with its prototype: \<open>None\<close> is
  the prototype of the class, \<^verbatim>\<open>WorldState.prototype\<close>, and \<open>Some p\<close> the
  \<^verbatim>\<open>VariableValue\<close> \<open>p\<close> that has replaced it. The constructor starts from an instance
  without own properties.
\<close>

record 'vv WorldState =
  own :: "'vv props"
  proto :: "'vv option"

definition new_instance :: "'vv WorldState" where
  "new_instance = \<lparr>own = [], proto = None\<rparr>"

text \<open>
  The assignment \<^verbatim>\<open>this[k] = v\<close>, in the strict-mode code of a class body.

  \<^item> A key that is an own property is a writable data property (the constructor creates
    no other kind): the value is replaced and the position kept.
  \<^item> Otherwise the key is looked up along the prototype chain. With the prototype of
    the class, \<^verbatim>\<open>id\<close> finds the getter without a setter that the class defines, and the
    assignment throws a \<^verbatim>\<open>TypeError\<close>; \<^verbatim>\<open>__proto__\<close> finds the accessor of
    \<^verbatim>\<open>Object.prototype\<close>, whose setter makes the \<^verbatim>\<open>VariableValue\<close> the prototype of the
    instance and creates no own property; every other key (also \<^verbatim>\<open>toGraphQL\<close> and
    \<^verbatim>\<open>constructor\<close>, which are writable data properties of the prototype) creates an
    own property.
  \<^item> Once a \<^verbatim>\<open>VariableValue\<close> \<open>p\<close> has become the prototype, the key is looked up on
    \<open>p\<close> and on the prototype of \<^verbatim>\<open>VariableValue\<close>, which the sources do not contain:
    the outcome is the parameter \<open>put\<close>. \<open>plain_put\<close> is the outcome for a class
    \<^verbatim>\<open>VariableValue\<close> that has writable data properties only.
\<close>

type_synonym ('e, 'vv) put =
  "'vv \<Rightarrow> string \<Rightarrow> 'vv \<Rightarrow> 'vv WorldState \<Rightarrow> 'e failure + 'vv WorldState"

definition assign ::
  "('e, 'vv) put \<Rightarrow> string \<Rightarrow> 'vv \<Rightarrow> 'vv WorldState \<Rightarrow> 'e failure + 'vv WorldState" where
  "assign put k v ws =
     (if k \<in> set (map fst (own ws)) then Inr (ws\<lparr>own := replace_value k v (own ws)\<rparr>)
      else
        (case proto ws of
           None \<Rightarrow>
             if k = ''id'' then Inl TypeError
             else if k = ''__proto__'' then Inr (ws\<lparr>proto := Some v\<rparr>)
             else Inr (ws\<lparr>own := define_own k v (own ws)\<rparr>)
         | Some p \<Rightarrow> put p k v ws))"

definition plain_put :: "('e, 'vv) put" where
  "plain_put p k v ws =
     (if k = ''__proto__'' then Inr (ws\<lparr>proto := Some v\<rparr>)
      else Inr (ws\<lparr>own := define_own k v (own ws)\<rparr>))"

text \<open>
  The bindings are an array or another object. An object is given by its property
  definitions in the order in which they were made; \<^verbatim>\<open>Object.values\<close> lists the values
  of its own properties in enumeration order.
\<close>

datatype 'b bindings = Array "'b list" | Object "'b props"

definition define_all :: "'v props \<Rightarrow> 'v props \<Rightarrow> 'v props" where
  "define_all kvs ps = foldl (\<lambda>acc p. define_own (fst p) (snd p) acc) ps kvs"

definition Object_values :: "'b props \<Rightarrow> 'b list" where
  "Object_values ps = map snd (define_all ps [])"

record ('vars, 'b) WorldState_input =
  variables :: 'vars
  conditions :: "'b bindings option"
  variableValues :: "'b bindings option"

text \<open>\<^verbatim>\<open>input.conditions || input.variableValues || []\<close>: an array or an object is truthy,
  also when it is empty; \<open>None\<close> stands for an absent (undefined or null) field.\<close>

definition chosen_bindings :: "('vars, 'b) WorldState_input \<Rightarrow> 'b bindings" where
  "chosen_bindings input =
     (case conditions input of
        Some c \<Rightarrow> c
      | None \<Rightarrow> (case variableValues input of Some vs \<Rightarrow> vs | None \<Rightarrow> Array []))"

text \<open>The array branch: the key is the binding's \<^verbatim>\<open>variableId\<close>. The value is constructed
  before the assignment is made.\<close>

fun assign_array ::
  "('vars \<Rightarrow> 'a keyed_scheme \<Rightarrow> 'e + 'vv) \<Rightarrow> ('e, 'vv) put \<Rightarrow> 'vars \<Rightarrow> 'a keyed_scheme list
     \<Rightarrow> 'vv WorldState \<Rightarrow> 'e failure + 'vv WorldState" where
  "assign_array newVV put vars [] ws = Inr ws"
| "assign_array newVV put vars (b # bs) ws =
     (case newVV vars b of
        Inl e \<Rightarrow> Inl (Thrown e)
      | Inr v \<Rightarrow>
          (case assign put (variableId b) v ws of
             Inl f \<Rightarrow> Inl f
           | Inr ws' \<Rightarrow> assign_array newVV put vars bs ws'))"

text \<open>The object branch: the key is the \<^verbatim>\<open>variableId\<close> of the constructed value.\<close>

fun assign_object ::
  "('vars \<Rightarrow> 'b \<Rightarrow> 'e + 'c keyed_scheme) \<Rightarrow> ('e, 'c keyed_scheme) put \<Rightarrow> 'vars \<Rightarrow> 'b list
     \<Rightarrow> 'c keyed_scheme WorldState \<Rightarrow> 'e failure + 'c keyed_scheme WorldState" where
  "assign_object newVV put vars [] ws = Inr ws"
| "assign_object newVV put vars (b # bs) ws =
     (case newVV vars b of
        Inl e \<Rightarrow> Inl (Thrown e)
      | Inr v \<Rightarrow>
          (case assign put (variableId v) v ws of
             Inl f \<Rightarrow> Inl f
           | Inr ws' \<Rightarrow> assign_object newVV put vars bs ws'))"

definition WorldState_new ::
  "('vars \<Rightarrow> 'a keyed_scheme \<Rightarrow> 'e + 'c keyed_scheme) \<Rightarrow> ('e, 'c keyed_scheme) put
     \<Rightarrow> ('vars, 'a keyed_scheme) WorldState_input
     \<Rightarrow> 'e failure + 'c keyed_scheme WorldState" where
  "WorldState_new newVV put input =
     (case chosen_bindings input of
        Array bs \<Rightarrow> assign_array newVV put (variables input) bs new_instance
      | Object ps \<Rightarrow> assign_object newVV put (variables input) (Object_values ps) new_instance)"

text \<open>
  Reading \<^verbatim>\<open>ws.id\<close> or calling \<^verbatim>\<open>ws.toGraphQL()\<close> looks the name up on the instance
  first. An own property of that name (a \<^verbatim>\<open>VariableValue\<close> stored under the variable-id
  \<^verbatim>\<open>toGraphQL\<close>, say) hides the member of the class; without one, the member of the class
  is found as long as the prototype is the one of the class, and after a replacement the
  name is looked up on the \<^verbatim>\<open>VariableValue\<close>.
\<close>

datatype 'vv found = On_class | On_instance 'vv | On_replacement 'vv

definition find_member :: "string \<Rightarrow> 'vv WorldState \<Rightarrow> 'vv found" where
  "find_member name ws =
     (case map_of (own ws) name of
        Some v \<Rightarrow> On_instance v
      | None \<Rightarrow> (case proto ws of None \<Rightarrow> On_class | Some p \<Rightarrow> On_replacement p))"

text \<open>The bodies of the getter and of the method, for the receiver \<open>ws\<close>:
  \<^verbatim>\<open>Object.values(this)\<close> are the values of the own properties.\<close>

definition id_getter :: "('vv \<Rightarrow> string) \<Rightarrow> 'vv WorldState \<Rightarrow> string" where
  "id_getter vvId ws = ''{'' @ join '','' (map (\<lambda>p. vvId (snd p)) (own ws)) @ ''}''"

definition toGraphQL_method :: "('vv \<Rightarrow> 'g) \<Rightarrow> 'vv WorldState \<Rightarrow> 'g list" where
  "toGraphQL_method vvToGraphQL ws = map (\<lambda>p. vvToGraphQL (snd p)) (own ws)"

text \<open>
  \<^verbatim>\<open>ws.id\<close> and \<^verbatim>\<open>ws.toGraphQL()\<close>. The result is \<open>Inr\<close> when the member of the class is
  reached. \<open>Inl (On_instance v)\<close>: the own property \<open>v\<close> is found instead; \<^verbatim>\<open>ws.id\<close> is
  then the \<^verbatim>\<open>VariableValue\<close> \<open>v\<close> itself, and the call \<^verbatim>\<open>ws.toGraphQL()\<close> throws a
  \<^verbatim>\<open>TypeError\<close>, since \<open>v\<close> is not a function. \<open>Inl (On_replacement p)\<close>: the result is
  decided by the class \<^verbatim>\<open>VariableValue\<close>, which the sources do not contain.
\<close>

definition WorldState_id :: "('vv \<Rightarrow> string) \<Rightarrow> 'vv WorldState \<Rightarrow> 'vv found + string" where
  "WorldState_id vvId ws =
     (case find_member ''id'' ws of
        On_class \<Rightarrow> Inr (id_getter vvId ws)
      | On_instance v \<Rightarrow> Inl (On_instance v)
      | On_replacement p \<Rightarrow> Inl (On_replacement p))"

definition WorldState_toGraphQL :: "('vv \<Rightarrow> 'g) \<Rightarrow> 'vv WorldState \<Rightarrow> 'vv found + 'g list" where
  "WorldState_toGraphQL vvToGraphQL ws =
     (case find_member ''toGraphQL'' ws of
        On_class \<Rightarrow> Inr (toGraphQL_method vvToGraphQL ws)
      | On_instance v \<Rightarrow> Inl (On_instance v)
      | On_replacement p \<Rightarrow> Inl (On_replacement p))"

text \<open>The variable-ids that a state holds as own properties, in enumeration order, and
  the value held for one.\<close>

definition WorldState_keys :: "'vv WorldState \<Rightarrow> string list" where
  "WorldState_keys ws = map fst (own ws)"

definition WorldState_get :: "'vv WorldState \<Rightarrow> string \<Rightarrow> 'vv option" where
  "WorldState_get ws k = map_of (own ws) k"


section \<open>The input and output types of the schema\<close>

text \<open>
  From the GraphQL schema: \<^verbatim>\<open>VariableInput { id: ID, typeOf: String!, description: String,
  weight: Float }\<close>, \<^verbatim>\<open>VariableValueInput { id: ID, variableId: ID!, STRING: String,
  FLOAT: Float, INT: Int, BOOLEAN: Boolean }\<close> and the output type
  \<^verbatim>\<open>VariableValue { id: ID!, variableId: ID!, STRING, FLOAT, INT, BOOLEAN }\<close>.
  A nullable field is an \<open>option\<close>. \<^verbatim>\<open>Float\<close> values are modelled as rational numbers
  (rounding is not modelled) and \<^verbatim>\<open>Int\<close> values as integers.
\<close>

record VariableInput =
  var_id :: "string option"
  typeOf :: string
  description :: "string option"
  weight :: "rat option"

record VariableValueInput = keyed +
  STRING_field :: "string option"
  FLOAT_field :: "rat option"
  INT_field :: "int option"
  BOOLEAN_field :: "bool option"

record VariableValueOutput = VariableValueInput +
  out_id :: string


section \<open>VariableValue\<close>

datatype Value = VString string | VInt int | VFloat rat | VBoolean bool

datatype error =
    SchemaError | MalformedValue | MalformedArgument | TypeMismatch | UnsupportedOperator
  | DuplicateAssignment | ArithmeticError | UnknownVariable

record VariableValue = keyed +
  "value" :: Value

fun tag_of :: "Value \<Rightarrow> string" where
  "tag_of (VString s) = ''STRING''"
| "tag_of (VInt i) = ''INT''"
| "tag_of (VFloat r) = ''FLOAT''"
| "tag_of (VBoolean b) = ''BOOLEAN''"

text \<open>Modelled from the spec: \<open>parseFromInput(field-set) \<rightarrow> Value\<close>, exactly one of the
  four fields set, else \<open>MalformedValue\<close> (the class \<^verbatim>\<open>VariableValue\<close> is missing from
  the sources).\<close>

definition parseFromInput ::
  "string option \<Rightarrow> rat option \<Rightarrow> int option \<Rightarrow> bool option \<Rightarrow> error + Value" where
  "parseFromInput s f i b =
     (case (s, f, i, b) of
        (Some x, None, None, None) \<Rightarrow> Inr (VString x)
      | (None, Some x, None, None) \<Rightarrow> Inr (VFloat x)
      | (None, None, Some x, None) \<Rightarrow> Inr (VInt x)
      | (None, None, None, Some x) \<Rightarrow> Inr (VBoolean x)
      | _ \<Rightarrow> Inl MalformedValue)"

definition find_variable :: "VariableInput list \<Rightarrow> string \<Rightarrow> VariableInput option" where
  "find_variable vars k = find (\<lambda>v. var_id v = Some k) vars"

text \<open>Modelled from the spec: the constructor of \<^verbatim>\<open>VariableValue\<close> (missing from the
  sources). The spec's \<open>VariableValue\<close> is \<open>{ variableId, value }\<close> with the invariant
  that the value's tag equals the referenced variable's \<open>typeOf\<close> (\<open>TypeMismatch\<close>
  otherwise); every variable-id must resolve in the variable table. The spec names no
  error kind for an id that does not resolve; the model calls it \<open>UnknownVariable\<close>.\<close>

definition VariableValue_new ::
  "VariableInput list \<Rightarrow> VariableValueInput \<Rightarrow> error + VariableValue" where
  "VariableValue_new vars b =
     (case parseFromInput (STRING_field b) (FLOAT_field b) (INT_field b) (BOOLEAN_field b) of
        Inl e \<Rightarrow> Inl e
      | Inr x \<Rightarrow>
          (case find_variable vars (variableId b) of
             None \<Rightarrow> Inl UnknownVariable
           | Some var \<Rightarrow>
               if typeOf var = tag_of x
               then Inr \<lparr>variableId = variableId b, value = x\<rparr>
               else Inl TypeMismatch))"

function show_nat :: "nat \<Rightarrow> string" where
  "show_nat n =
     (if n < 10 then [''0123456789'' ! n]
      else show_nat (n div 10) @ [''0123456789'' ! (n mod 10)])"
  by pat_completeness auto
termination
  by (relation "measure (\<lambda>n. n)") auto

definition show_int :: "int \<Rightarrow> string" where
  "show_int i = (if i < 0 then ''-'' @ show_nat (nat (- i)) else show_nat (nat i))"

fun show_value :: "Value \<Rightarrow> string" where
  "show_value (VString s) = s"
| "show_value (VInt i) = show_int i"
| "show_value (VFloat r) = show_int (fst (quotient_of r)) @ ''/'' @ show_int (snd (quotient_of r))"
| "show_value (VBoolean b) = (if b then ''true'' else ''false'')"

text \<open>Modelled from the spec: the \<^verbatim>\<open>id\<close> getter of \<^verbatim>\<open>VariableValue\<close> (missing from the
  sources). The spec derives identities from \<open>(variableId, tag, value-bytes)\<close>; the
  model renders the three, separated by colons.\<close>

definition VariableValue_id :: "VariableValue \<Rightarrow> string" where
  "VariableValue_id v =
     variableId v @ '':'' @ tag_of (value v) @ '':'' @ show_value (value v)"

text \<open>Modelled from the spec: \<^verbatim>\<open>VariableValue.toGraphQL\<close> (missing from the sources),
  producing the schema's output type with exactly the field of the value's tag set.\<close>

definition VariableValue_toGraphQL :: "VariableValue \<Rightarrow> VariableValueOutput" where
  "VariableValue_toGraphQL v =
     \<lparr>variableId = variableId v,
      STRING_field = (case value v of VString s \<Rightarrow> Some s | _ \<Rightarrow> None),
      FLOAT_field = (case value v of VFloat r \<Rightarrow> Some r | _ \<Rightarrow> None),
      INT_field = (case value v of VInt i \<Rightarrow> Some i | _ \<Rightarrow> None),
      BOOLEAN_field = (case value v of VBoolean b \<Rightarrow> Some b | _ \<Rightarrow> None),
      out_id = VariableValue_id v\<rparr>"

section \<open>Auxiliary notions and example inputs\<close>

text \<open>The last binding that a value list gives for a variable-id.\<close>

definition last_binding :: "'a keyed_scheme list \<Rightarrow> string \<Rightarrow> 'a keyed_scheme option" where
  "last_binding bs k = find (\<lambda>b. variableId b = k) (rev bs)"

definition example_variable :: "string \<Rightarrow> string \<Rightarrow> VariableInput" where
  "example_variable k t = \<lparr>var_id = Some k, typeOf = t, description = None, weight = Some 1\<rparr>"

definition example_int :: "string \<Rightarrow> int \<Rightarrow> VariableValueInput" where
  "example_int k i =
     \<lparr>variableId = k, STRING_field = None, FLOAT_field = None, INT_field = Some i,
      BOOLEAN_field = None\<rparr>"

text \<open>A decimal numeral without a leading zero.\<close>

definition canonical_digits :: "string \<Rightarrow> bool" where
  "canonical_digits k \<longleftrightarrow> list_all is_digit k \<and> k \<noteq> [] \<and> (hd k = CHR ''0'' \<longrightarrow> length k = 1)"

text \<open>The enumeration order of the own properties of an object whose keys were created in
  the order \<open>ks\<close>: the array indices ascending, then the other keys by first occurrence.
  \<open>index_first\<close> is the corresponding invariant of a key list.\<close>

definition enumeration_order :: "string list \<Rightarrow> string list" where
  "enumeration_order ks =
     sort_key dec_val (remdups (filter is_array_index ks))
     @ rev (remdups (rev (filter (\<lambda>k. \<not> is_array_index k) ks)))"

definition index_first :: "string list \<Rightarrow> bool" where
  "index_first ks \<longleftrightarrow>
     ks = filter is_array_index ks @ filter (\<lambda>k. \<not> is_array_index k) ks
     \<and> sorted_wrt (\<lambda>a b. dec_val a < dec_val b) (filter is_array_index ks)"

text \<open>Modelled from the spec: the canonical form of a WorldState is the state sorted by
  variable-id, and \<open>equal(a,b)\<close> holds iff the canonical forms agree field-wise (the
  sources define neither).\<close>

definition canonical :: "'vv WorldState \<Rightarrow> 'vv props" where
  "canonical ws = sort_key fst (own ws)"

definition equal :: "'vv WorldState \<Rightarrow> 'vv WorldState \<Rightarrow> bool" where
  "equal a b = (canonical a = canonical b)"

section \<open>Transition semantics\<close>

text \<open>
  The sources contain the schema and \<^verbatim>\<open>WorldState.js\<close> only. The operator tables, the
  evaluation of conditions, the firing of transitions and the query operations are
  missing; this section models them from sections 3, 4.1 to 4.4 and 4.6 of the spec.
  A world-state is an instance of the class of \<^verbatim>\<open>WorldState.js\<close>, with one own property
  for each variable that it maps.
\<close>

text \<open>Modelled from the spec: a \<open>VariableOrValue\<close> is either a literal or a reference to
  a variable that is resolved against the current world-state (section 3; the parsed
  form of section 9).\<close>

datatype VariableOrValue = Literal Value | Reference string

text \<open>Modelled from the spec: \<open>Condition\<close>, \<open>Effect\<close> and \<open>Transition\<close> of section 3.\<close>

record Condition = keyed +
  comparisonOperator :: string
  c_argument :: VariableOrValue

record Effect = keyed +
  assignmentOperator :: string
  e_argument :: VariableOrValue

record Transition =
  t_id :: string
  t_conditions :: "Condition list"
  t_effects :: "Effect list"
  t_action :: "string option"
  t_cost :: rat

text \<open>Modelled from the spec: \<open>get(variableId)\<close> and \<open>with(variableId, newValue)\<close> of
  section 4.3 (the class of \<^verbatim>\<open>WorldState.js\<close> has neither). \<open>get\<close> reads the own property
  of the variable; a key that is absent is reported as \<open>UnknownVariable\<close>. \<open>with\<close>
  returns the state in which the own property of the variable holds the new value.\<close>

definition get_value :: "VariableValue WorldState \<Rightarrow> string \<Rightarrow> error + Value" where
  "get_value ws k =
     (case WorldState_get ws k of None \<Rightarrow> Inl UnknownVariable | Some v \<Rightarrow> Inr (value v))"

definition WorldState_with ::
  "string \<Rightarrow> Value \<Rightarrow> VariableValue WorldState \<Rightarrow> VariableValue WorldState" where
  "WorldState_with k x ws = ws\<lparr>own := define_own k \<lparr>variableId = k, value = x\<rparr> (own ws)\<rparr>"

definition resolve :: "VariableOrValue \<Rightarrow> VariableValue WorldState \<Rightarrow> error + Value" where
  "resolve a ws = (case a of Literal x \<Rightarrow> Inr x | Reference k \<Rightarrow> get_value ws k)"

text \<open>Modelled from the spec: the comparison operators of section 4.1. \<open>EQ\<close> and \<open>NE\<close>
  apply to all types, the four orderings to INT, FLOAT and STRING, \<open>AND\<close> and \<open>OR\<close> to
  BOOLEAN; any other pair of operator and type is \<open>UnsupportedOperator\<close>.\<close>

definition ordering :: "string \<Rightarrow> 'a::linorder \<Rightarrow> 'a \<Rightarrow> bool" where
  "ordering op x y =
     (if op = ''LT'' then x < y
      else if op = ''LE'' then x \<le> y
      else if op = ''GT'' then y < x
      else y \<le> x)"

definition comparisonOp :: "string \<Rightarrow> Value \<Rightarrow> Value \<Rightarrow> error + bool" where
  "comparisonOp op a b =
     (if op = ''EQ'' then Inr (a = b)
      else if op = ''NE'' then Inr (a \<noteq> b)
      else if op \<in> set [''LT'', ''LE'', ''GT'', ''GE''] then
        (case (a, b) of
           (VInt x, VInt y) \<Rightarrow> Inr (ordering op x y)
         | (VFloat x, VFloat y) \<Rightarrow> Inr (ordering op x y)
         | (VString x, VString y) \<Rightarrow> Inr (ordering op x y)
         | _ \<Rightarrow> Inl UnsupportedOperator)
      else if op = ''AND'' then
        (case (a, b) of (VBoolean x, VBoolean y) \<Rightarrow> Inr (x \<and> y) | _ \<Rightarrow> Inl UnsupportedOperator)
      else if op = ''OR'' then
        (case (a, b) of (VBoolean x, VBoolean y) \<Rightarrow> Inr (x \<or> y) | _ \<Rightarrow> Inl UnsupportedOperator)
      else Inl UnsupportedOperator)"

text \<open>Modelled from the spec: the assignment operators of section 4.1. INT is the 64-bit
  signed integer of section 3: a result outside its range is an \<open>ArithmeticError\<close>
  (section 7), and so is a division by zero. The spec does not fix the rounding of the
  integer division; the model truncates toward zero.\<close>

definition int64 :: "int \<Rightarrow> error + Value" where
  "int64 i =
     (if - 9223372036854775808 \<le> i \<and> i \<le> 9223372036854775807 then Inr (VInt i)
      else Inl ArithmeticError)"

definition truncated_div :: "int \<Rightarrow> int \<Rightarrow> int" where
  "truncated_div x y = sgn x * sgn y * (\<bar>x\<bar> div \<bar>y\<bar>)"

definition assignmentOp :: "string \<Rightarrow> Value \<Rightarrow> Value \<Rightarrow> error + Value" where
  "assignmentOp op a b =
     (if op = ''SET'' then Inr b
      else if op = ''ADD'' then
        (case (a, b) of
           (VInt x, VInt y) \<Rightarrow> int64 (x + y)
         | (VFloat x, VFloat y) \<Rightarrow> Inr (VFloat (x + y))
         | _ \<Rightarrow> Inl UnsupportedOperator)
      else if op = ''SUB'' then
        (case (a, b) of
           (VInt x, VInt y) \<Rightarrow> int64 (x - y)
         | (VFloat x, VFloat y) \<Rightarrow> Inr (VFloat (x - y))
         | _ \<Rightarrow> Inl UnsupportedOperator)
      else if op = ''MUL'' then
        (case (a, b) of
           (VInt x, VInt y) \<Rightarrow> int64 (x * y)
         | (VFloat x, VFloat y) \<Rightarrow> Inr (VFloat (x * y))
         | _ \<Rightarrow> Inl UnsupportedOperator)
      else if op = ''DIV'' then
        (case (a, b) of
           (VInt x, VInt y) \<Rightarrow>
             if y = 0 then Inl ArithmeticError else int64 (truncated_div x y)
         | (VFloat x, VFloat y) \<Rightarrow>
             if y = 0 then Inl ArithmeticError else Inr (VFloat (x / y))
         | _ \<Rightarrow> Inl UnsupportedOperator)
      else if op = ''AND'' then
        (case (a, b) of
           (VBoolean x, VBoolean y) \<Rightarrow> Inr (VBoolean (x \<and> y))
         | _ \<Rightarrow> Inl UnsupportedOperator)
      else if op = ''OR'' then
        (case (a, b) of
           (VBoolean x, VBoolean y) \<Rightarrow> Inr (VBoolean (x \<or> y))
         | _ \<Rightarrow> Inl UnsupportedOperator)
      else if op = ''XOR'' then
        (case (a, b) of
           (VBoolean x, VBoolean y) \<Rightarrow> Inr (VBoolean (x \<noteq> y))
         | _ \<Rightarrow> Inl UnsupportedOperator)
      else if op = ''CONCAT'' then
        (case (a, b) of
           (VString x, VString y) \<Rightarrow> Inr (VString (x @ y))
         | _ \<Rightarrow> Inl UnsupportedOperator)
      else Inl UnsupportedOperator)"

text \<open>Modelled from the spec: \<open>evalCondition\<close> of section 4.4, in its four steps.\<close>

definition evalCondition :: "Condition \<Rightarrow> VariableValue WorldState \<Rightarrow> error + bool" where
  "evalCondition c ws =
     (case get_value ws (variableId c) of
        Inl e \<Rightarrow> Inl e
      | Inr lhs \<Rightarrow>
          (case resolve (c_argument c) ws of
             Inl e \<Rightarrow> Inl e
           | Inr rhs \<Rightarrow>
               if tag_of lhs = tag_of rhs then comparisonOp (comparisonOperator c) lhs rhs
               else Inl TypeMismatch))"

text \<open>Modelled from the spec: the conjunction of \<open>evalCondition\<close> over a condition list,
  evaluated in list order and stopping at the first condition that fails or is false;
  the empty list is satisfied. It serves both for \<open>isEnabled\<close> and for
  \<open>goalsSatisfied\<close>.\<close>

fun allConditions :: "Condition list \<Rightarrow> VariableValue WorldState \<Rightarrow> error + bool" where
  "allConditions [] ws = Inr True"
| "allConditions (c # cs) ws =
     (case evalCondition c ws of
        Inl e \<Rightarrow> Inl e
      | Inr ok \<Rightarrow> if ok then allConditions cs ws else Inr False)"

definition isEnabled :: "Transition \<Rightarrow> VariableValue WorldState \<Rightarrow> error + bool" where
  "isEnabled t ws = allConditions (t_conditions t) ws"

definition goalsSatisfied :: "Condition list \<Rightarrow> VariableValue WorldState \<Rightarrow> error + bool" where
  "goalsSatisfied goals ws = allConditions goals ws"

text \<open>Modelled from the spec: one step of firing (section 4.4, step 2). The left-hand
  side and the argument are both read from the working copy.\<close>

definition applyEffect :: "Effect \<Rightarrow> VariableValue WorldState \<Rightarrow> error + VariableValue WorldState"
  where
  "applyEffect e working =
     (case get_value working (variableId e) of
        Inl err \<Rightarrow> Inl err
      | Inr lhs \<Rightarrow>
          (case resolve (e_argument e) working of
             Inl err \<Rightarrow> Inl err
           | Inr rhs \<Rightarrow>
               if tag_of lhs = tag_of rhs then
                 (case assignmentOp (assignmentOperator e) lhs rhs of
                    Inl err \<Rightarrow> Inl err
                  | Inr new \<Rightarrow> Inr (WorldState_with (variableId e) new working))
               else Inl TypeMismatch))"

fun applyEffects ::
  "Effect list \<Rightarrow> VariableValue WorldState \<Rightarrow> error + VariableValue WorldState" where
  "applyEffects [] working = Inr working"
| "applyEffects (e # es) working =
     (case applyEffect e working of
        Inl err \<Rightarrow> Inl err
      | Inr working' \<Rightarrow> applyEffects es working')"

text \<open>Modelled from the spec: \<open>fire(t, state)\<close> of section 4.4. Firing requires the
  transition to be enabled; the spec names no error kind for a call that violates the
  requirement, the model reports it as \<open>NotEnabled\<close>.\<close>

datatype fire_error = NotEnabled | Failed error

definition fire :: "Transition \<Rightarrow> VariableValue WorldState \<Rightarrow> fire_error + VariableValue WorldState"
  where
  "fire t ws =
     (case isEnabled t ws of
        Inl e \<Rightarrow> Inl (Failed e)
      | Inr ok \<Rightarrow>
          if ok then
            (case applyEffects (t_effects t) ws of
               Inl e \<Rightarrow> Inl (Failed e)
             | Inr working \<Rightarrow> Inr working)
          else Inl NotEnabled)"

text \<open>Modelled from the spec: firing with the states held in the cells of a store, for
  the words \<open>a mutable working copy of state\<close> of section 4.4. A state is referred to
  by the number of its cell. Firing puts a copy of the state into a new cell, the working
  copy; every effect reads the working copy and writes the state that \<open>with\<close> returns
  back into it; the result is the reference to the working copy.\<close>

type_synonym ref = nat

type_synonym store = "VariableValue WorldState list"

definition copy_state :: "ref \<Rightarrow> store \<Rightarrow> ref \<times> store" where
  "copy_state r \<sigma> = (length \<sigma>, \<sigma> @ [\<sigma> ! r])"

fun applyEffects_at :: "Effect list \<Rightarrow> ref \<Rightarrow> store \<Rightarrow> error + store" where
  "applyEffects_at [] working \<sigma> = Inr \<sigma>"
| "applyEffects_at (e # es) working \<sigma> =
     (case get_value (\<sigma> ! working) (variableId e) of
        Inl err \<Rightarrow> Inl err
      | Inr lhs \<Rightarrow>
          (case resolve (e_argument e) (\<sigma> ! working) of
             Inl err \<Rightarrow> Inl err
           | Inr rhs \<Rightarrow>
               if tag_of lhs = tag_of rhs then
                 (case assignmentOp (assignmentOperator e) lhs rhs of
                    Inl err \<Rightarrow> Inl err
                  | Inr new \<Rightarrow>
                      applyEffects_at es working
                        (\<sigma>[working := WorldState_with (variableId e) new (\<sigma> ! working)]))
               else Inl TypeMismatch))"

definition fire_at :: "Transition \<Rightarrow> ref \<Rightarrow> store \<Rightarrow> fire_error + ref \<times> store" where
  "fire_at t state \<sigma> =
     (case isEnabled t (\<sigma> ! state) of
        Inl e \<Rightarrow> Inl (Failed e)
      | Inr ok \<Rightarrow>
          if ok then
            (case copy_state state \<sigma> of
               (working, \<sigma>') \<Rightarrow>
                 (case applyEffects_at (t_effects t) working \<sigma>' of
                    Inl e \<Rightarrow> Inl (Failed e)
                  | Inr \<sigma>'' \<Rightarrow> Inr (working, \<sigma>'')))
          else Inl NotEnabled)"








section \<open>Planner\<close>

text \<open>
  The planner is missing from the sources; this section models it from section 4.5 of
  the spec. Nodes are world-state identities, computed as the \<^verbatim>\<open>id\<close> getter of
  \<^verbatim>\<open>WorldState.js\<close> computes them. Costs are rational numbers.
\<close>

text \<open>Modelled from the spec: \<open>ActionPlan\<close> of section 3.\<close>

record ActionPlan =
  actions :: "string list"
  transitions :: "string list"
  totalSteps :: nat
  totalCost :: rat
  initialState :: "VariableValueOutput list"
  finalState :: "VariableValueOutput list"
  status :: string

text \<open>Modelled from the spec: an element of the open set, with its \<open>f\<close>, its \<open>g\<close> and
  its insertion number; the closed set (\<open>bestG\<close>), the came-from map and the states of
  the nodes, keyed by identity; the number of entries inserted so far.\<close>

record entry =
  f_score :: rat
  g_score :: rat
  seq :: nat
  node :: string

record search_state =
  open_set :: "entry list"
  bestG :: "string \<rightharpoonup> rat"
  cameFrom :: "string \<rightharpoonup> string \<times> string"
  nodes :: "string \<rightharpoonup> VariableValue WorldState"
  inserted :: nat

datatype outcome = Found entry "VariableValue WorldState" search_state | Unreachable | Aborted

definition identity :: "VariableValue WorldState \<Rightarrow> string" where
  "identity ws = id_getter VariableValue_id ws"

text \<open>Modelled from the spec: the order of the open set. The entry with the least \<open>f\<close>
  is dequeued; ties on \<open>f\<close> are broken by the higher \<open>g\<close>, then by insertion order.\<close>

definition before :: "entry \<Rightarrow> entry \<Rightarrow> bool" where
  "before a b =
     (f_score a < f_score b
      \<or> (f_score a = f_score b
          \<and> (g_score b < g_score a \<or> (g_score a = g_score b \<and> seq a < seq b))))"

fun pick :: "entry \<Rightarrow> entry list \<Rightarrow> entry" where
  "pick a [] = a"
| "pick a (b # bs) = pick (if before b a then b else a) bs"

text \<open>Modelled from the spec: the edges out of one node. A transition that is not
  enabled gives no edge. A firing that fails with \<open>ArithmeticError\<close> prunes the edge and
  the expansion goes on with the next transition; any other failure ends the query. The
  closed set and the came-from map are written, and the successor is enqueued, only
  when its \<open>g\<close> is strictly less than the recorded one (or none is recorded).\<close>

definition relax ::
  "(VariableValue WorldState \<Rightarrow> rat) \<Rightarrow> string \<Rightarrow> rat \<Rightarrow> Transition
     \<Rightarrow> VariableValue WorldState \<Rightarrow> search_state \<Rightarrow> search_state" where
  "relax h n g t s' st =
     (let i = identity s'; g' = g + t_cost t in
      if (case bestG st i of None \<Rightarrow> True | Some b \<Rightarrow> g' < b) then
        (let known = (case nodes st i of None \<Rightarrow> s' | Some s \<Rightarrow> s) in
         st\<lparr>open_set :=
               open_set st @ [\<lparr>f_score = g' + h known, g_score = g', seq = inserted st, node = i\<rparr>],
             bestG := (bestG st)(i \<mapsto> g'),
             cameFrom := (cameFrom st)(i \<mapsto> (n, t_id t)),
             nodes := (nodes st)(i \<mapsto> known),
             inserted := inserted st + 1\<rparr>)
      else st)"

fun expand ::
  "(VariableValue WorldState \<Rightarrow> rat) \<Rightarrow> Transition list \<Rightarrow> string
     \<Rightarrow> VariableValue WorldState \<Rightarrow> rat \<Rightarrow> search_state \<Rightarrow> error + search_state" where
  "expand h [] n s g st = Inr st"
| "expand h (t # ts) n s g st =
     (case fire t s of
        Inl NotEnabled \<Rightarrow> expand h ts n s g st
      | Inl (Failed e) \<Rightarrow>
          if e = ArithmeticError then expand h ts n s g st else Inl e
      | Inr s' \<Rightarrow> expand h ts n s g (relax h n g t s' st))"

text \<open>Modelled from the spec: the search loop. The entry dequeued is skipped when its
  \<open>g\<close> exceeds the recorded \<open>bestG\<close> (lazy deletion); a dequeued state that satisfies the
  goal ends the search; otherwise the node is expanded, unless the number \<open>k\<close> of
  expansions made has reached the bound. An entry whose node has no recorded state does
  not occur; the model drops it.\<close>

function search ::
  "(VariableValue WorldState \<Rightarrow> rat) \<Rightarrow> Condition list \<Rightarrow> Transition list \<Rightarrow> nat \<Rightarrow> nat
     \<Rightarrow> search_state \<Rightarrow> error + outcome" where
  "search h goal ts bound k st =
     (case open_set st of
        [] \<Rightarrow> Inr Unreachable
      | a # rest \<Rightarrow>
          (let m = pick a rest; st1 = st\<lparr>open_set := remove1 m (a # rest)\<rparr> in
           if (case bestG st (node m) of None \<Rightarrow> False | Some b \<Rightarrow> b < g_score m)
           then search h goal ts bound k st1
           else
             (case nodes st (node m) of
                None \<Rightarrow> search h goal ts bound k st1
              | Some s \<Rightarrow>
                  (case goalsSatisfied goal s of
                     Inl e \<Rightarrow> Inl e
                   | Inr sat \<Rightarrow>
                       if sat then Inr (Found m s st1)
                       else if bound \<le> k then Inr Aborted
                       else
                         (case expand h ts (node m) s (g_score m) st1 of
                            Inl e \<Rightarrow> Inl e
                          | Inr st2 \<Rightarrow> search h goal ts bound (Suc k) st2)))))"
  by pat_completeness auto
termination
proof -
  have mem: "pick a bs \<in> set (a # bs)" for a :: entry and bs
    by (induction bs arbitrary: a) auto
  have shorter: "length (remove1 (pick a bs) bs) < length bs" if "pick a bs \<noteq> a"
    for a :: entry and bs
  proof -
    from mem [of a bs] that have "pick a bs \<in> set bs" by simp
    moreover from this have "bs \<noteq> []" by auto
    ultimately show ?thesis by (simp add: length_remove1)
  qed
  show ?thesis
    by (relation "measures [\<lambda>(h, goal, ts, bound, k, st). bound - k,
                            \<lambda>(h, goal, ts, bound, k, st). length (open_set st)]")
       (auto simp: shorter)
qed

declare search.simps [simp del]

text \<open>Modelled from the spec: the reconstruction walks the came-from map from the goal
  back to the start and lists the transitions from the start to the goal. A walk that
  does not end has no result.\<close>

partial_function (option) walk ::
  "(string \<rightharpoonup> string \<times> string) \<Rightarrow> string \<Rightarrow> string \<Rightarrow> string list \<Rightarrow> string list option"
  where
  "walk cf start i acc =
     (if i = start then Some acc
      else (case cf i of None \<Rightarrow> Some acc | Some link \<Rightarrow> walk cf start (fst link) (snd link # acc)))"

declare walk.simps [code]

text \<open>Modelled from the spec: the heuristic in its indicator form, the sum over the goal
  conditions that are not satisfied of the weight of the condition's variable. A
  condition whose evaluation fails counts as not satisfied; a variable without a weight
  has the weight 1.\<close>

definition variable_weight :: "VariableInput list \<Rightarrow> string \<Rightarrow> rat" where
  "variable_weight vars k =
     (case find_variable vars k of
        None \<Rightarrow> 1
      | Some v \<Rightarrow> (case weight v of None \<Rightarrow> 1 | Some w \<Rightarrow> w))"

definition distance :: "Condition \<Rightarrow> VariableValue WorldState \<Rightarrow> rat" where
  "distance c ws = (case evalCondition c ws of Inl e \<Rightarrow> 1 | Inr sat \<Rightarrow> if sat then 0 else 1)"

definition heuristic ::
  "VariableInput list \<Rightarrow> Condition list \<Rightarrow> VariableValue WorldState \<Rightarrow> rat" where
  "heuristic vars goal ws =
     sum_list (map (\<lambda>c. variable_weight vars (variableId c) * distance c ws) goal)"

text \<open>Modelled from the spec: the validation made once, before the search (section 7).
  Every variable-id must resolve in the variable table, the type of the argument must
  be the type of the variable, and the operator must be registered for that type. The
  spec names no error kind for an id that does not resolve; the model reports
  \<open>UnknownVariable\<close>.\<close>

definition comparison_types :: "string \<Rightarrow> string list" where
  "comparison_types op =
     (if op \<in> set [''EQ'', ''NE''] then [''STRING'', ''INT'', ''FLOAT'', ''BOOLEAN'']
      else if op \<in> set [''LT'', ''LE'', ''GT'', ''GE''] then [''INT'', ''FLOAT'', ''STRING'']
      else if op \<in> set [''AND'', ''OR''] then [''BOOLEAN'']
      else [])"

definition assignment_types :: "string \<Rightarrow> string list" where
  "assignment_types op =
     (if op = ''SET'' then [''STRING'', ''INT'', ''FLOAT'', ''BOOLEAN'']
      else if op \<in> set [''ADD'', ''SUB'', ''MUL'', ''DIV''] then [''INT'', ''FLOAT'']
      else if op \<in> set [''AND'', ''OR'', ''XOR''] then [''BOOLEAN'']
      else if op = ''CONCAT'' then [''STRING'']
      else [])"

definition operand_type :: "VariableInput list \<Rightarrow> VariableOrValue \<Rightarrow> string option" where
  "operand_type vars a =
     (case a of
        Literal x \<Rightarrow> Some (tag_of x)
      | Reference k \<Rightarrow> map_option typeOf (find_variable vars k))"

definition check_typing ::
  "VariableInput list \<Rightarrow> string \<Rightarrow> string list \<Rightarrow> VariableOrValue \<Rightarrow> error option" where
  "check_typing vars k accepted a =
     (case find_variable vars k of
        None \<Rightarrow> Some UnknownVariable
      | Some v \<Rightarrow>
          (case operand_type vars a of
             None \<Rightarrow> Some UnknownVariable
           | Some ty \<Rightarrow>
               if ty \<noteq> typeOf v then Some TypeMismatch
               else if typeOf v \<in> set accepted then None
               else Some UnsupportedOperator))"

definition check_condition :: "VariableInput list \<Rightarrow> Condition \<Rightarrow> error option" where
  "check_condition vars c =
     check_typing vars (variableId c) (comparison_types (comparisonOperator c)) (c_argument c)"

definition check_effect :: "VariableInput list \<Rightarrow> Effect \<Rightarrow> error option" where
  "check_effect vars e =
     check_typing vars (variableId e) (assignment_types (assignmentOperator e)) (e_argument e)"

fun first_error :: "error option list \<Rightarrow> error option" where
  "first_error [] = None"
| "first_error (None # xs) = first_error xs"
| "first_error (Some e # xs) = Some e"

definition validate ::
  "VariableInput list \<Rightarrow> Transition list \<Rightarrow> Condition list \<Rightarrow> error option" where
  "validate vars ts goal =
     first_error
       (concat (map (\<lambda>t. map (check_condition vars) (t_conditions t)
                          @ map (check_effect vars) (t_effects t)) ts)
        @ map (check_condition vars) goal)"

text \<open>Modelled from the spec: the plan for each outcome of the search (section 4.5).
  \<open>actions\<close> lists the actions of the transitions of the plan that carry one, in order;
  a transition is found by its id in the transition list. \<open>totalCost\<close> is the \<open>g\<close> of
  the goal node and \<open>totalSteps\<close> the number of transitions. Without a plan the lists are
  empty, the cost is 0 and the final state is the initial state. The states are listed
  by \<^verbatim>\<open>toGraphQL()\<close> of \<^verbatim>\<open>WorldState.js\<close>; when the call does not reach the method of
  the class, the query fails.\<close>

definition action_of :: "Transition list \<Rightarrow> string \<Rightarrow> string option" where
  "action_of ts i = (case find (\<lambda>t. t_id t = i) ts of None \<Rightarrow> None | Some t \<Rightarrow> t_action t)"

definition cost_of :: "Transition list \<Rightarrow> string \<Rightarrow> rat" where
  "cost_of ts i = (case find (\<lambda>t. t_id t = i) ts of None \<Rightarrow> 0 | Some t \<Rightarrow> t_cost t)"

datatype query_error =
  Construction "error failure" | Evaluation error | Listing "VariableValue found"

definition state_values ::
  "VariableValue WorldState \<Rightarrow> query_error + VariableValueOutput list" where
  "state_values ws =
     (case WorldState_toGraphQL VariableValue_toGraphQL ws of
        Inl m \<Rightarrow> Inl (Listing m)
      | Inr vs \<Rightarrow> Inr vs)"

definition found_plan ::
  "Transition list \<Rightarrow> VariableValue WorldState \<Rightarrow> entry \<Rightarrow> VariableValue WorldState
     \<Rightarrow> string list \<Rightarrow> query_error + ActionPlan" where
  "found_plan ts s0 m s path =
     (case state_values s0 of
        Inl e \<Rightarrow> Inl e
      | Inr first \<Rightarrow>
          (case state_values s of
             Inl e \<Rightarrow> Inl e
           | Inr final \<Rightarrow>
               Inr \<lparr>actions = List.map_filter (action_of ts) path,
                    transitions = path,
                    totalSteps = length path,
                    totalCost = g_score m,
                    initialState = first,
                    finalState = final,
                    status = ''FOUND''\<rparr>))"

definition no_plan :: "string \<Rightarrow> VariableValue WorldState \<Rightarrow> query_error + ActionPlan" where
  "no_plan st s0 =
     (case state_values s0 of
        Inl e \<Rightarrow> Inl e
      | Inr first \<Rightarrow>
          Inr \<lparr>actions = [], transitions = [], totalSteps = 0, totalCost = 0,
               initialState = first, finalState = first, status = st\<rparr>)"

definition initial_search ::
  "(VariableValue WorldState \<Rightarrow> rat) \<Rightarrow> VariableValue WorldState \<Rightarrow> search_state" where
  "initial_search h s0 =
     \<lparr>open_set = [\<lparr>f_score = h s0, g_score = 0, seq = 0, node = identity s0\<rparr>],
      bestG = [identity s0 \<mapsto> 0],
      cameFrom = Map.empty,
      nodes = [identity s0 \<mapsto> s0],
      inserted = 1\<rparr>"

text \<open>Modelled from the spec: \<open>generateActionPlan\<close> of section 4.6, for a heuristic \<open>h\<close>
  and a bound on the number of expansions. The initial state is built by the
  constructor of \<^verbatim>\<open>WorldState.js\<close>; the \<open>VariableValue\<close> of the spec is a plain record,
  for which the assignments of the constructor are those of \<open>plain_put\<close>. The result is
  \<open>None\<close> when the reconstruction does not end.\<close>

definition plan_search ::
  "(VariableValue WorldState \<Rightarrow> rat) \<Rightarrow> nat \<Rightarrow> Transition list \<Rightarrow> Condition list
     \<Rightarrow> VariableValue WorldState \<Rightarrow> (query_error + ActionPlan) option" where
  "plan_search h bound ts goal s0 =
     (case search h goal ts bound 0 (initial_search h s0) of
        Inl e \<Rightarrow> Some (Inl (Evaluation e))
      | Inr Unreachable \<Rightarrow> Some (no_plan ''UNREACHABLE'' s0)
      | Inr Aborted \<Rightarrow> Some (no_plan ''ABORTED'' s0)
      | Inr (Found m s st) \<Rightarrow>
          map_option (\<lambda>path. found_plan ts s0 m s path)
            (walk (cameFrom st) (identity s0) (node m) []))"

definition generateActionPlan_with ::
  "(VariableValue WorldState \<Rightarrow> rat) \<Rightarrow> nat \<Rightarrow> VariableInput list \<Rightarrow> Transition list
     \<Rightarrow> VariableValueInput list \<Rightarrow> Condition list \<Rightarrow> (query_error + ActionPlan) option" where
  "generateActionPlan_with h bound vars ts initial goal =
     (case WorldState_new VariableValue_new plain_put
             \<lparr>variables = vars, conditions = None, variableValues = Some (Array initial)\<rparr> of
        Inl f \<Rightarrow> Some (Inl (Construction f))
      | Inr s0 \<Rightarrow>
          (case validate vars ts goal of
             Some e \<Rightarrow> Some (Inl (Evaluation e))
           | None \<Rightarrow> plan_search h bound ts goal s0))"

text \<open>The planner with the heuristic of the spec and the default bound of 100 000
  expansions.\<close>

definition generateActionPlan ::
  "VariableInput list \<Rightarrow> Transition list \<Rightarrow> VariableValueInput list \<Rightarrow> Condition list
     \<Rightarrow> (query_error + ActionPlan) option" where
  "generateActionPlan vars ts initial goal =
     generateActionPlan_with (heuristic vars goal) 100000 vars ts initial goal"

section \<open>Further example inputs\<close>

definition example_effect :: "string \<Rightarrow> string \<Rightarrow> VariableOrValue \<Rightarrow> Effect" where
  "example_effect k op a = \<lparr>variableId = k, assignmentOperator = op, e_argument = a\<rparr>"

definition example_condition :: "string \<Rightarrow> string \<Rightarrow> VariableOrValue \<Rightarrow> Condition" where
  "example_condition k op a = \<lparr>variableId = k, comparisonOperator = op, c_argument = a\<rparr>"

definition example_state :: "(string \<times> int) list \<Rightarrow> VariableValue WorldState" where
  "example_state xs =
     \<lparr>own = map (\<lambda>(k, i). (k, \<lparr>variableId = k, value = VInt i\<rparr>)) xs, proto = None\<rparr>"

definition example_transition ::
  "string \<Rightarrow> Condition list \<Rightarrow> Effect list \<Rightarrow> string option \<Rightarrow> rat \<Rightarrow> Transition" where
  "example_transition i cs es a c =
     \<lparr>t_id = i, t_conditions = cs, t_effects = es, t_action = a, t_cost = c\<rparr>"

section \<open>The history of a search\<close>

text \<open>
  The cost of the plan is the \<open>g\<close> of the goal entry, while its transitions are read
  off the came-from map. To relate the two, the proofs follow every entry that the search
  has ever inserted into the open set, numbered by its insertion number: the entry
  itself, the entry whose expansion created it (\<open>par\<close>) and the transition fired
  (\<open>via\<close>), the list of its ancestors from the start entry on (\<open>lin\<close>), the transitions
  along that list (\<open>vp\<close>), the set of the entries expanded so far, and the pairs of an
  expanded entry and a transition id whose edge has been handled (\<open>rel\<close>). The search
  itself keeps none of this; the history only appears in the invariant.
\<close>

record history =
  ent :: "nat \<Rightarrow> entry"
  par :: "nat \<Rightarrow> nat"
  via :: "nat \<Rightarrow> string"
  lin :: "nat \<Rightarrow> nat list"
  vp :: "nat \<Rightarrow> string list"
  expanded :: "nat set"
  rel :: "(nat \<times> string) set"

definition entry_ok ::
  "(VariableValue WorldState \<Rightarrow> rat) \<Rightarrow> Transition list \<Rightarrow> search_state \<Rightarrow> history \<Rightarrow> nat
     \<Rightarrow> bool" where
  "entry_ok h ts st G q \<longleftrightarrow>
     seq (ent G q) = q
     \<and> 0 \<le> g_score (ent G q)
     \<and> sum_list (map (cost_of ts) (vp G q)) = g_score (ent G q)
     \<and> (\<exists>b. bestG st (node (ent G q)) = Some b \<and> b \<le> g_score (ent G q))
     \<and> (\<exists>s. nodes st (node (ent G q)) = Some s
            \<and> f_score (ent G q) = g_score (ent G q) + h s)
     \<and> set (lin G q) \<subseteq> expanded G
     \<and> (\<forall>a \<in> set (lin G q).
           g_score (ent G a) \<le> g_score (ent G q) \<and> set (lin G a) \<subseteq> set (lin G q))
     \<and> (q \<in> expanded G \<or> ent G q \<in> set (open_set st)
          \<or> (\<exists>b. bestG st (node (ent G q)) = Some b \<and> b < g_score (ent G q)))"

definition child_ok ::
  "Transition list \<Rightarrow> string \<Rightarrow> search_state \<Rightarrow> history \<Rightarrow> nat \<Rightarrow> bool" where
  "child_ok ts start st G q \<longleftrightarrow>
     par G q < q
     \<and> par G q \<in> expanded G
     \<and> lin G q = lin G (par G q) @ [par G q]
     \<and> vp G q = vp G (par G q) @ [via G q]
     \<and> node (ent G q) \<noteq> start
     \<and> (\<exists>t \<in> set ts. \<exists>s s'. t_id t = via G q
            \<and> nodes st (node (ent G (par G q))) = Some s
            \<and> fire t s = Inr s' \<and> identity s' = node (ent G q))"

definition inv_root :: "string \<Rightarrow> search_state \<Rightarrow> history \<Rightarrow> bool" where
  "inv_root start st G \<longleftrightarrow>
     0 < inserted st \<and> node (ent G 0) = start \<and> lin G 0 = [] \<and> vp G 0 = []
     \<and> bestG st start = Some 0
     \<and> (\<forall>q \<in> expanded G. q < inserted st)"

definition inv_open :: "search_state \<Rightarrow> history \<Rightarrow> bool" where
  "inv_open st G \<longleftrightarrow>
     (\<forall>e \<in> set (open_set st).
        seq e < inserted st \<and> ent G (seq e) = e \<and> seq e \<notin> expanded G)
     \<and> distinct (map seq (open_set st))"

definition inv_unique :: "search_state \<Rightarrow> history \<Rightarrow> bool" where
  "inv_unique st G \<longleftrightarrow>
     (\<forall>q q'. q < q' \<and> q' < inserted st \<and> node (ent G q) = node (ent G q')
        \<longrightarrow> g_score (ent G q') < g_score (ent G q))"

definition inv_current :: "search_state \<Rightarrow> history \<Rightarrow> bool" where
  "inv_current st G \<longleftrightarrow>
     (\<forall>n b. bestG st n = Some b \<longrightarrow>
        (\<exists>q < inserted st. node (ent G q) = n \<and> g_score (ent G q) = b
           \<and> cameFrom st n
               = (if q = 0 then None else Some (node (ent G (par G q)), via G q))))"

definition handled :: "Transition list \<Rightarrow> search_state \<Rightarrow> history \<Rightarrow> nat \<Rightarrow> string \<Rightarrow> bool" where
  "handled ts st G q i \<longleftrightarrow>
     (\<forall>c < inserted st.
        c \<noteq> 0 \<and> node (ent G (par G c)) = node (ent G q) \<and> via G c = i
        \<longrightarrow> (\<exists>b. bestG st (node (ent G c)) = Some b
               \<and> b \<le> g_score (ent G q) + cost_of ts i))"

definition inv_rel :: "Transition list \<Rightarrow> search_state \<Rightarrow> history \<Rightarrow> bool" where
  "inv_rel ts st G \<longleftrightarrow>
     (\<forall>p \<in> rel G. fst p \<in> expanded G \<and> handled ts st G (fst p) (snd p))"

definition inv_frontier :: "search_state \<Rightarrow> history \<Rightarrow> bool" where
  "inv_frontier st G \<longleftrightarrow>
     (\<forall>ev \<in> expanded G. \<forall>x \<in> set (open_set st). \<forall>y \<in> set (open_set st).
        ev \<in> set (lin G (seq y)) \<and> ev \<notin> set (lin G (seq x))
        \<longrightarrow> f_score (ent G ev) \<le> f_score x \<or> f_score (ent G ev) \<le> f_score y)"

definition search_inv ::
  "(VariableValue WorldState \<Rightarrow> rat) \<Rightarrow> Transition list \<Rightarrow> string \<Rightarrow> search_state \<Rightarrow> history
     \<Rightarrow> bool" where
  "search_inv h ts start st G \<longleftrightarrow>
     inv_root start st G
     \<and> (\<forall>q < inserted st. entry_ok h ts st G q)
     \<and> (\<forall>q < inserted st. q \<noteq> 0 \<longrightarrow> child_ok ts start st G q)
     \<and> inv_open st G \<and> inv_unique st G \<and> inv_current st G \<and> inv_rel ts st G
     \<and> inv_frontier st G"

text \<open>The invariant while the entry \<open>m\<close> is being expanded; \<open>D\<close> holds the ids of the
  transitions handled so far.\<close>

definition expanding_frontier :: "entry \<Rightarrow> search_state \<Rightarrow> history \<Rightarrow> bool" where
  "expanding_frontier m st G \<longleftrightarrow>
     (\<forall>x \<in> set (open_set st). seq m \<in> set (lin G (seq x)) \<or> f_score m \<le> f_score x)
     \<and> (\<forall>ev \<in> expanded G. \<forall>y \<in> set (open_set st).
           ev \<in> set (lin G (seq m)) \<and> ev \<notin> set (lin G (seq y))
           \<longrightarrow> f_score (ent G ev) \<le> f_score y)
     \<and> (\<forall>ev \<in> expanded G. \<forall>y \<in> set (open_set st).
           ev \<in> set (lin G (seq y)) \<and> ev \<notin> set (lin G (seq m)) \<and> ev \<noteq> seq m
           \<longrightarrow> f_score (ent G ev) \<le> f_score y)"

definition expanding ::
  "(VariableValue WorldState \<Rightarrow> rat) \<Rightarrow> Transition list \<Rightarrow> string \<Rightarrow> entry
     \<Rightarrow> VariableValue WorldState \<Rightarrow> string set \<Rightarrow> search_state \<Rightarrow> history \<Rightarrow> bool" where
  "expanding h ts start m s D st G \<longleftrightarrow>
     search_inv h ts start st G
     \<and> seq m \<in> expanded G \<and> ent G (seq m) = m
     \<and> nodes st (node m) = Some s \<and> bestG st (node m) = Some (g_score m)
     \<and> (expanded G - {seq m}) \<times> t_id ` set ts \<subseteq> rel G
     \<and> {seq m} \<times> D \<subseteq> rel G
     \<and> expanding_frontier m st G"

text \<open>The history after the expansion of \<open>m\<close> has inserted an entry for the transition
  with id \<open>i\<close>.\<close>

definition record_child :: "entry \<Rightarrow> string \<Rightarrow> entry \<Rightarrow> history \<Rightarrow> history" where
  "record_child m i e G =
     G\<lparr>ent := (ent G)(seq e := e),
       par := (par G)(seq e := seq m),
       via := (via G)(seq e := i),
       lin := (lin G)(seq e := lin G (seq m) @ [seq m]),
       vp := (vp G)(seq e := vp G (seq m) @ [i]),
       rel := insert (seq m, i) (rel G)\<rparr>"
section \<open>Properties of the own-property list\<close>

text \<open>The unfolding rules that evaluate the definitions on concrete inputs.\<close>

lemmas example_eval =
  example_variable_def example_int_def WorldState_new_def chosen_bindings_def
  VariableValue_new_def parseFromInput_def find_variable_def assign_def define_own_def
  new_instance_def plain_put_def define_all_def Object_values_def find_member_def
  id_getter_def toGraphQL_method_def
  is_array_index_def is_digit_def dec_val_def digit_val_def
  WorldState_id_def WorldState_toGraphQL_def WorldState_get_def WorldState_keys_def
  VariableValue_id_def VariableValue_toGraphQL_def show_int_def last_binding_def

lemma map_of_replace_value:
  "k \<in> set (map fst ps) \<Longrightarrow>
     map_of (replace_value k v ps) k' = (if k' = k then Some v else map_of ps k')"
  by (induction ps) (auto simp: rev_image_eqI)

lemma map_of_insert_index:
  "map_of (insert_index k v ps) k' = (if k' = k then Some v else map_of ps k')"
  by (induction ps) auto

lemma map_of_snoc_new:
  "k \<notin> fst ` set ps \<Longrightarrow>
     map_of (ps @ [(k, v)]) k' = (if k' = k then Some v else map_of ps k')"
  by (induction ps) auto

lemma map_of_define_own:
  "map_of (define_own k v ps) k' = (if k' = k then Some v else map_of ps k')"
  unfolding define_own_def
  by (simp add: map_of_replace_value map_of_insert_index map_of_snoc_new del: map_of_append)

lemma keys_replace_value: "map fst (replace_value k v ps) = map fst ps"
  by (induction ps) auto

lemma set_keys_insert_index: "set (map fst (insert_index k v ps)) = insert k (set (map fst ps))"
  by (induction ps) auto

lemma set_keys_define_own:
  "set (map fst (define_own k v ps)) = insert k (set (map fst ps))"
  unfolding define_own_def
  by (auto simp: keys_replace_value set_keys_insert_index simp del: set_map)

lemma define_all_Nil: "define_all [] ps = ps"
  by (simp add: define_all_def)

lemma define_all_Cons:
  "define_all (p # kvs) ps = define_all kvs (define_own (fst p) (snd p) ps)"
  by (simp add: define_all_def)

lemma set_keys_define_all:
  "set (map fst (define_all kvs ps)) = set (map fst ps) \<union> set (map fst kvs)"
  by (induction kvs arbitrary: ps)
     (auto simp: define_all_Nil define_all_Cons set_keys_define_own simp del: set_map)

lemma map_of_define_all:
  "map_of (define_all kvs ps) k =
     (case map_of (rev kvs) k of None \<Rightarrow> map_of ps k | Some v \<Rightarrow> Some v)"
proof (induction kvs arbitrary: ps)
  case Nil
  then show ?case by (simp add: define_all_Nil)
next
  case (Cons p kvs)
  show ?case
    by (cases p)
       (simp add: define_all_Cons Cons.IH map_of_define_own map_add_def split: option.splits)
qed

text \<open>
  As long as the prototype is the one of the class, an assignment to a key other than
  \<^verbatim>\<open>id\<close> and \<^verbatim>\<open>__proto__\<close> defines an own property, whatever \<open>put\<close> is.
\<close>

lemma assign_attached:
  "proto ws = None \<Longrightarrow> k \<noteq> ''id'' \<Longrightarrow> k \<noteq> ''__proto__'' \<Longrightarrow>
     assign put k v ws = Inr (ws\<lparr>own := define_own k v (own ws)\<rparr>)"
  by (simp add: assign_def define_own_def)

lemma all_constructed:
  "\<forall>b \<in> set bs. \<exists>v. f b = Inr v \<Longrightarrow> \<exists>vs. map f bs = map Inr vs"
proof (induction bs)
  case Nil
  then show ?case by simp
next
  case (Cons b bs)
  then obtain v vs where "f b = Inr v" "map f bs = map Inr vs" by auto
  then have "map f (b # bs) = map Inr (v # vs)" by simp
  then show ?case by blast
qed

lemma assign_array_attached:
  assumes "map (newVV vars) bs = map Inr vs"
    and "\<forall>b \<in> set bs. variableId b \<noteq> ''id'' \<and> variableId b \<noteq> ''__proto__''"
    and "proto ws = None"
  shows "assign_array newVV put vars bs ws
     = Inr (ws\<lparr>own := define_all (zip (map variableId bs) vs) (own ws)\<rparr>)"
  using assms
proof (induction bs arbitrary: vs ws)
  case Nil
  then show ?case by (simp add: define_all_Nil)
next
  case (Cons b bs)
  from Cons.prems(1) obtain v vs' where vs: "vs = v # vs'" and v: "newVV vars b = Inr v"
    and rest: "map (newVV vars) bs = map Inr vs'"
    by (cases vs) auto
  from Cons.prems(2,3) have step: "assign put (variableId b) v ws
      = Inr (ws\<lparr>own := define_own (variableId b) v (own ws)\<rparr>)"
    by (simp add: assign_attached)
  from Cons.prems(2) have adm: "\<forall>b \<in> set bs. variableId b \<noteq> ''id'' \<and> variableId b \<noteq> ''__proto__''"
    by simp
  from Cons.prems(3) have "proto (ws\<lparr>own := define_own (variableId b) v (own ws)\<rparr>) = None"
    by simp
  from Cons.IH [OF rest adm this] show ?case
    by (simp add: v step vs define_all_Cons)
qed

lemma assign_object_attached:
  assumes "map (newVV vars) bs = map Inr vs"
    and "\<forall>v \<in> set vs. variableId v \<noteq> ''id'' \<and> variableId v \<noteq> ''__proto__''"
    and "proto ws = None"
  shows "assign_object newVV put vars bs ws
     = Inr (ws\<lparr>own := define_all (map (\<lambda>v. (variableId v, v)) vs) (own ws)\<rparr>)"
  using assms
proof (induction bs arbitrary: vs ws)
  case Nil
  then show ?case by (simp add: define_all_Nil)
next
  case (Cons b bs)
  from Cons.prems(1) obtain v vs' where vs: "vs = v # vs'" and v: "newVV vars b = Inr v"
    and rest: "map (newVV vars) bs = map Inr vs'"
    by (cases vs) auto
  from Cons.prems(2,3) vs have step: "assign put (variableId v) v ws
      = Inr (ws\<lparr>own := define_own (variableId v) v (own ws)\<rparr>)"
    by (simp add: assign_attached)
  from Cons.prems(2) vs
  have adm: "\<forall>v \<in> set vs'. variableId v \<noteq> ''id'' \<and> variableId v \<noteq> ''__proto__''"
    by simp
  from Cons.prems(3) have "proto (ws\<lparr>own := define_own (variableId v) v (own ws)\<rparr>) = None"
    by simp
  from Cons.IH [OF rest adm this] show ?case
    by (simp add: v step vs define_all_Cons)
qed

lemma find_snoc:
  "find P (xs @ [x]) = (case find P xs of None \<Rightarrow> (if P x then Some x else None) | Some y \<Rightarrow> Some y)"
  by (induction xs) auto

lemma last_binding_Cons:
  "last_binding (b # bs) k =
     (case last_binding bs k of None \<Rightarrow> (if variableId b = k then Some b else None)
      | Some b' \<Rightarrow> Some b')"
  by (simp add: last_binding_def find_snoc)

lemma last_binding_None: "last_binding bs k = None \<longleftrightarrow> k \<notin> set (map variableId bs)"
  by (auto simp: last_binding_def find_None_iff)

lemma find_mem: "find P xs = Some x \<Longrightarrow> x \<in> set xs \<and> P x"
  by (induction xs) (auto split: if_splits)

lemma last_binding_mem: "last_binding bs k = Some b \<Longrightarrow> b \<in> set bs \<and> variableId b = k"
  using find_mem [of "\<lambda>b. variableId b = k" "rev bs" b] by (simp add: last_binding_def)

lemma constructed_member:
  assumes "map f bs = map Inr vs" and "b \<in> set bs"
  shows "\<exists>v. f b = Inr v"
proof -
  from assms(2) have "f b \<in> set (map f bs)" by simp
  with assms(1) have "f b \<in> set (map Inr vs)" by simp
  then show ?thesis by auto
qed

lemma map_of_last_binding:
  "map (newVV vars) bs = map Inr vs \<Longrightarrow>
     map_of (rev (zip (map variableId bs) vs)) k =
       (case last_binding bs k of None \<Rightarrow> None
        | Some b \<Rightarrow> (case newVV vars b of Inl e \<Rightarrow> None | Inr v \<Rightarrow> Some v))"
proof (induction bs arbitrary: vs)
  case Nil
  then show ?case by (simp add: last_binding_def)
next
  case (Cons b bs)
  from Cons.prems obtain v vs' where vs: "vs = v # vs'" and v: "newVV vars b = Inr v"
    and rest: "map (newVV vars) bs = map Inr vs'"
    by (cases vs) auto
  note IH = Cons.IH [OF rest]
  show ?case
  proof (cases "last_binding bs k")
    case None
    with IH show ?thesis
      by (simp add: vs v last_binding_Cons map_add_def)
  next
    case (Some b')
    then have "b' \<in> set bs" by (simp add: last_binding_mem)
    from constructed_member [OF rest this] obtain v' where "newVV vars b' = Inr v'" by blast
    with IH Some show ?thesis
      by (simp add: vs v last_binding_Cons map_add_def)
  qed
qed


section \<open>Decimal keys\<close>

text \<open>Two array indices with the same numeric value are the same string.\<close>

lemma dec_val_snoc: "dec_val (xs @ [c]) = 10 * dec_val xs + digit_val c"
  by (simp add: dec_val_def)

lemma digit_val_less: "is_digit c \<Longrightarrow> digit_val c < 10"
  by (auto simp: is_digit_def digit_val_def)

lemma digit_val_inj: "is_digit c \<Longrightarrow> is_digit d \<Longrightarrow> digit_val c = digit_val d \<Longrightarrow> c = d"
proof -
  assume "is_digit c" "is_digit d" "digit_val c = digit_val d"
  then have "(of_char c :: nat) = of_char d"
    unfolding is_digit_def digit_val_def by linarith
  then show "c = d" by simp
qed

lemma digit_val_zero: "is_digit c \<Longrightarrow> digit_val c = 0 \<Longrightarrow> c = CHR ''0''"
proof -
  assume "is_digit c" "digit_val c = 0"
  then have "(of_char c :: nat) = 48"
    unfolding is_digit_def digit_val_def by linarith
  then have "(of_char c :: nat) = of_char (CHR ''0'')"
    by simp
  then show ?thesis by (simp only: of_char_eq_iff)
qed

lemma dec_val_pos:
  "list_all is_digit k \<Longrightarrow> k \<noteq> [] \<Longrightarrow> hd k \<noteq> CHR ''0'' \<Longrightarrow> 0 < dec_val k"
proof (induction k rule: rev_induct)
  case Nil
  then show ?case by simp
next
  case (snoc c xs)
  show ?case
  proof (cases "xs = []")
    case True
    with snoc.prems digit_val_zero [of c] show ?thesis
      by (auto simp: dec_val_def)
  next
    case False
    with snoc have "0 < dec_val xs" by simp
    then show ?thesis by (simp add: dec_val_snoc)
  qed
qed

lemma dec_val_inj_canonical:
  "canonical_digits a \<Longrightarrow> canonical_digits b \<Longrightarrow> dec_val a = dec_val b \<Longrightarrow> a = b"
proof (induction a arbitrary: b rule: rev_induct)
  case Nil
  then show ?case by (simp add: canonical_digits_def)
next
  case (snoc c xs)
  from snoc.prems(2) obtain ys d where b: "b = ys @ [d]"
    by (cases b rule: rev_cases) (auto simp: canonical_digits_def)
  from snoc.prems b have dig: "is_digit c" "is_digit d" "list_all is_digit xs" "list_all is_digit ys"
    by (auto simp: canonical_digits_def)
  from snoc.prems(3) b have eq: "10 * dec_val xs + digit_val c = 10 * dec_val ys + digit_val d"
    by (simp add: dec_val_snoc)
  from digit_val_less [OF dig(1)] digit_val_less [OF dig(2)] eq
  have dv: "digit_val c = digit_val d" and rest: "dec_val xs = dec_val ys"
    by presburger+
  from dv dig have cd: "c = d" by (blast intro: digit_val_inj)
  have xs_can: "canonical_digits xs" if "xs \<noteq> []"
    using that snoc.prems(1) dig by (auto simp: canonical_digits_def)
  have ys_can: "canonical_digits ys" if "ys \<noteq> []"
    using that snoc.prems(2) dig b by (auto simp: canonical_digits_def)
  have xs_pos: "0 < dec_val xs" if "xs \<noteq> []"
    using that snoc.prems(1) dig dec_val_pos [of xs] by (auto simp: canonical_digits_def)
  have ys_pos: "0 < dec_val ys" if "ys \<noteq> []"
    using that snoc.prems(2) dig b dec_val_pos [of ys] by (auto simp: canonical_digits_def)
  have "xs = ys"
  proof (cases "xs = []")
    case True
    with rest ys_pos show ?thesis by (cases "ys = []") (auto simp: dec_val_def)
  next
    case False
    with rest xs_pos have "ys \<noteq> []" by (auto simp: dec_val_def)
    with False xs_can ys_can rest snoc.IH show ?thesis by blast
  qed
  with cd b show ?case by simp
qed

lemma is_array_index_canonical: "is_array_index k \<Longrightarrow> canonical_digits k"
  by (auto simp: is_array_index_def canonical_digits_def split: if_splits)

lemma dec_val_inj:
  "is_array_index a \<Longrightarrow> is_array_index b \<Longrightarrow> dec_val a = dec_val b \<Longrightarrow> a = b"
  by (blast intro: dec_val_inj_canonical is_array_index_canonical)

section \<open>The enumeration order of a constructed state\<close>

lemma index_first_Cons_index:
  "is_array_index k \<Longrightarrow>
     index_first (k # ks) \<longleftrightarrow>
       index_first ks \<and> (\<forall>x \<in> set ks. is_array_index x \<longrightarrow> dec_val k < dec_val x)"
  by (auto simp: index_first_def)

lemma filter_index_empty:
  assumes "ks = filter is_array_index ks @ filter (\<lambda>k. \<not> is_array_index k) ks"
    and "ks = k # ks'" and "\<not> is_array_index k"
  shows "filter is_array_index ks = []"
proof (rule ccontr)
  assume "filter is_array_index ks \<noteq> []"
  then obtain x xs where f: "filter is_array_index ks = x # xs" by (cases "filter is_array_index ks") auto
  then have "x \<in> set (filter is_array_index ks)" by simp
  then have "is_array_index x" by simp
  moreover from assms(1) f have "hd ks = x" by (metis append_Cons list.sel(1))
  ultimately show False using assms(2,3) by simp
qed

lemma index_first_Cons_other:
  "\<not> is_array_index k \<Longrightarrow>
     index_first (k # ks) \<longleftrightarrow> (\<forall>x \<in> set ks. \<not> is_array_index x)"
proof
  assume k: "\<not> is_array_index k" and "index_first (k # ks)"
  then have "k # ks = filter is_array_index (k # ks) @ filter (\<lambda>k. \<not> is_array_index k) (k # ks)"
    by (simp add: index_first_def)
  from filter_index_empty [OF this refl k] k show "\<forall>x \<in> set ks. \<not> is_array_index x"
    by (auto simp: filter_empty_conv)
next
  assume k: "\<not> is_array_index k" and "\<forall>x \<in> set ks. \<not> is_array_index x"
  then have "filter is_array_index ks = []" "filter (\<lambda>k. \<not> is_array_index k) ks = ks"
    by (auto simp: filter_empty_conv filter_id_conv)
  with k show "index_first (k # ks)" by (simp add: index_first_def)
qed

lemma keys_insert_index_other:
  "is_array_index k \<Longrightarrow>
     filter (\<lambda>k. \<not> is_array_index k) (map fst (insert_index k v ps))
       = filter (\<lambda>k. \<not> is_array_index k) (map fst ps)"
  by (induction ps) auto

lemma index_first_insert_index:
  assumes "is_array_index k" and "k \<notin> set (map fst ps)" and "index_first (map fst ps)"
  shows "index_first (map fst (insert_index k v ps))"
  using assms(2,3)
proof (induction ps)
  case Nil
  with assms(1) show ?case by (simp add: index_first_def)
next
  case (Cons p ps)
  show ?case
  proof (cases "is_array_index (fst p)")
    case True
    note p = this
    show ?thesis
    proof (cases "dec_val (fst p) < dec_val k")
      case True
      with p Cons show ?thesis
        by (auto simp: index_first_Cons_index set_keys_insert_index simp del: set_map)
    next
      case False
      from Cons.prems(1) have "k \<noteq> fst p" by auto
      with dec_val_inj [OF assms(1) p] False have lt: "dec_val k < dec_val (fst p)"
        by (meson linorder_neqE_nat)
      with p False Cons.prems assms(1) show ?thesis
        by (auto simp: index_first_Cons_index)
    qed
  next
    case False
    with Cons.prems assms(1) show ?thesis
      by (auto simp: index_first_Cons_index index_first_Cons_other)
  qed
qed

lemma index_first_snoc_other:
  "\<not> is_array_index k \<Longrightarrow> index_first ks \<Longrightarrow> index_first (ks @ [k])"
  by (auto simp: index_first_def)

lemma index_first_define_own:
  "index_first (map fst ps) \<Longrightarrow> index_first (map fst (define_own k v ps))"
  by (simp add: define_own_def keys_replace_value index_first_insert_index
      index_first_snoc_other del: set_map)

lemma distinct_keys_insert_index:
  "k \<notin> set (map fst ps) \<Longrightarrow> distinct (map fst ps) \<Longrightarrow> distinct (map fst (insert_index k v ps))"
  by (induction ps) (auto simp: set_keys_insert_index simp del: set_map)

lemma distinct_keys_define_own:
  "distinct (map fst ps) \<Longrightarrow> distinct (map fst (define_own k v ps))"
  by (simp add: define_own_def keys_replace_value distinct_keys_insert_index del: set_map)

lemma remdups_drop_repeated:
  "k \<in> set ys \<Longrightarrow> remdups (xs @ k # ys) = remdups (xs @ ys)"
  by (induction xs) auto

lemma first_occurrence_repeat:
  "k \<in> set A \<Longrightarrow> rev (remdups (rev (A @ k # B))) = rev (remdups (rev (A @ B)))"
  by (simp add: remdups_drop_repeated)

lemma keys_define_own_other:
  "filter (\<lambda>k. \<not> is_array_index k) (map fst (define_own k v ps)) =
     (if is_array_index k \<or> k \<in> set (map fst ps)
      then filter (\<lambda>k. \<not> is_array_index k) (map fst ps)
      else filter (\<lambda>k. \<not> is_array_index k) (map fst ps) @ [k])"
  by (simp add: define_own_def keys_replace_value keys_insert_index_other del: set_map)

lemma define_all_other_keys:
  "distinct (map fst ps) \<Longrightarrow>
     filter (\<lambda>k. \<not> is_array_index k) (map fst (define_all kvs ps)) =
       rev (remdups (rev (filter (\<lambda>k. \<not> is_array_index k) (map fst ps)
                          @ filter (\<lambda>k. \<not> is_array_index k) (map fst kvs))))"
proof (induction kvs arbitrary: ps)
  case Nil
  then show ?case by (simp add: define_all_Nil distinct_remdups_id)
next
  case (Cons p kvs)
  from Cons.prems have "distinct (map fst (define_own (fst p) (snd p) ps))"
    by (rule distinct_keys_define_own)
  note IH = Cons.IH [OF this]
  show ?case
  proof (cases "is_array_index (fst p)")
    case True
    with IH show ?thesis by (simp add: define_all_Cons keys_define_own_other del: set_map)
  next
    case False
    note nidx = this
    show ?thesis
    proof (cases "fst p \<in> set (map fst ps)")
      case True
      with nidx have "fst p \<in> set (filter (\<lambda>k. \<not> is_array_index k) (map fst ps))"
        by simp
      from first_occurrence_repeat [OF this] IH True nidx
      show ?thesis by (simp add: define_all_Cons keys_define_own_other del: set_map)
    next
      case False
      with IH nidx show ?thesis
        by (simp add: define_all_Cons keys_define_own_other del: set_map)
    qed
  qed
qed

lemma sort_key_unique:
  assumes "sorted_wrt (\<lambda>a b. f a < f b) xs" and "distinct ys" and "set xs = set ys"
  shows "sort_key f ys = xs"
proof -
  from assms(1) have s: "sorted_wrt (<) (map f xs)" by (simp add: sorted_wrt_map)
  then have sx: "sorted (map f xs)" and dx: "distinct (map f xs)"
    by (simp_all add: strict_sorted_iff)
  from dx have inj: "inj_on f (set xs)" by (simp add: distinct_map)
  with assms(2,3) have "distinct (map f (sort_key f ys))"
    by (simp add: distinct_map)
  moreover have "sorted (map f (sort_key f ys))" by simp
  moreover have "set (map f (sort_key f ys)) = set (map f xs)" using assms(3) by simp
  ultimately have "map f (sort_key f ys) = map f xs"
    using sx dx by (blast intro: sorted_distinct_set_unique)
  moreover from inj assms(3) have "inj_on f (set (sort_key f ys) \<union> set xs)" by simp
  ultimately show ?thesis by (simp add: inj_on_map_eq_map)
qed

lemma define_all_invariant:
  "index_first (map fst ps) \<Longrightarrow> distinct (map fst ps) \<Longrightarrow>
     index_first (map fst (define_all kvs ps)) \<and> distinct (map fst (define_all kvs ps))"
  by (induction kvs arbitrary: ps)
     (simp_all add: define_all_Nil define_all_Cons index_first_define_own
        distinct_keys_define_own)

lemma define_all_order: "map fst (define_all kvs []) = enumeration_order (map fst kvs)"
proof -
  let ?ws = "define_all kvs []"
  let ?ks = "map fst kvs"
  from define_all_invariant [of "[]" kvs] have inv: "index_first (map fst ?ws)"
    and dist: "distinct (map fst ?ws)"
    by (simp_all add: index_first_def)
  from set_keys_define_all [of kvs "[]"] have keys: "set (map fst ?ws) = set ?ks" by simp
  from inv have split: "map fst ?ws = filter is_array_index (map fst ?ws)
      @ filter (\<lambda>k. \<not> is_array_index k) (map fst ?ws)"
    and sorted: "sorted_wrt (\<lambda>a b. dec_val a < dec_val b) (filter is_array_index (map fst ?ws))"
    by (simp_all add: index_first_def)
  have "set (filter is_array_index (map fst ?ws)) = set (remdups (filter is_array_index ?ks))"
    using keys by auto
  with sort_key_unique [OF sorted, of "remdups (filter is_array_index ?ks)"]
  have idx: "sort_key dec_val (remdups (filter is_array_index ?ks))
      = filter is_array_index (map fst ?ws)" by simp
  from define_all_other_keys [of "[]" kvs]
  have "filter (\<lambda>k. \<not> is_array_index k) (map fst ?ws)
      = rev (remdups (rev (filter (\<lambda>k. \<not> is_array_index k) ?ks)))" by simp
  with idx split show ?thesis by (simp add: enumeration_order_def)
qed

lemma values_by_key:
  "distinct (map fst ps) \<Longrightarrow> map (\<lambda>k. map_option f (map_of ps k)) (map fst ps)
     = map (\<lambda>p. Some (f (snd p))) ps"
  by (induction ps) (auto simp: rev_image_eqI)


lemma props_from_keys:
  "distinct (map fst ps) \<Longrightarrow> map (\<lambda>k. (k, the (map_of ps k))) (map fst ps) = ps"
proof (induction ps)
  case Nil
  then show ?case by simp
next
  case (Cons p ps)
  have A: "map (\<lambda>k. (k, the (map_of (p # ps) k))) (map fst ps)
      = map (\<lambda>k. (k, the (map_of ps k))) (map fst ps)"
  proof (intro map_cong refl)
    fix k assume "k \<in> set (map fst ps)"
    with Cons.prems have "k \<noteq> fst p" by (auto simp del: set_map)
    then show "(k, the (map_of (p # ps) k)) = (k, the (map_of ps k))" by (cases p) simp
  qed
  from Cons have B: "map (\<lambda>k. (k, the (map_of ps k))) (map fst ps) = ps" by simp
  have "map (\<lambda>k. (k, the (map_of (p # ps) k))) (map fst (p # ps))
      = (fst p, the (map_of (p # ps) (fst p)))
        # map (\<lambda>k. (k, the (map_of (p # ps) k))) (map fst ps)"
    by (simp only: list.map)
  also have "\<dots> = p # ps"
    unfolding A B by (cases p) simp
  finally show ?case .
qed

text \<open>Sorting the array indices of a key list by their numeric value depends on the set
  of the keys only.\<close>

lemma sort_key_indices:
  assumes "set xs = set ys" and "distinct xs" and "distinct ys"
    and "\<forall>x \<in> set xs. is_array_index x"
  shows "sort_key dec_val xs = sort_key dec_val ys"
proof -
  from assms(4) have "inj_on dec_val (set xs)"
    by (auto intro!: inj_onI dest: dec_val_inj)
  with assms(1-3) have "distinct (map dec_val (sort_key dec_val xs))"
    "distinct (map dec_val (sort_key dec_val ys))"
    by (simp_all add: distinct_map)
  then have s: "sorted_wrt (\<lambda>a b. dec_val a < dec_val b) (sort_key dec_val xs)"
    by (simp add: sorted_wrt_map [symmetric] strict_sorted_iff)
  from assms(3) have "distinct ys" .
  from sort_key_unique [OF s this] assms(1) show ?thesis by simp
qed
section \<open>The constructor\<close>

lemma map_of_keyed_values:
  "map_of (map (\<lambda>u. (variableId u, u)) xs) k = find (\<lambda>u. variableId u = k) xs"
  by (induction xs) auto

text \<open>
  The state that the constructor builds from an array of bindings, when every binding
  constructs a value and no variable-id is \<^verbatim>\<open>id\<close> or \<^verbatim>\<open>__proto__\<close>.
\<close>

lemma WorldState_new_array:
  assumes ok: "\<forall>b \<in> set bs. (\<exists>v. newVV vars b = Inr v) \<and> variableId b \<noteq> ''id''
                 \<and> variableId b \<noteq> ''__proto__''"
    and input: "chosen_bindings input = Array bs" "variables input = vars"
  shows "\<exists>ws. WorldState_new newVV put input = Inr ws \<and> proto ws = None
           \<and> WorldState_keys ws = enumeration_order (map variableId bs)
           \<and> distinct (WorldState_keys ws)
           \<and> (\<forall>k. WorldState_get ws k =
                 (case last_binding bs k of None \<Rightarrow> None
                  | Some b \<Rightarrow> (case newVV vars b of Inl e \<Rightarrow> None | Inr v \<Rightarrow> Some v)))"
proof -
  from ok have "\<forall>b \<in> set bs. \<exists>v. newVV vars b = Inr v" by blast
  from all_constructed [OF this] obtain vs where vs: "map (newVV vars) bs = map Inr vs" ..
  from vs have len: "length vs = length bs" by (metis length_map)
  let ?kvs = "zip (map variableId bs) vs"
  let ?ws = "new_instance\<lparr>own := define_all ?kvs []\<rparr>"
  from ok have adm: "\<forall>b \<in> set bs. variableId b \<noteq> ''id'' \<and> variableId b \<noteq> ''__proto__''"
    by blast
  have "assign_array newVV put vars bs new_instance
      = Inr (new_instance\<lparr>own := define_all ?kvs (own new_instance)\<rparr>)"
    using assign_array_attached
      [where newVV = newVV and vars = vars and bs = bs and vs = vs and ws = new_instance
         and put = put] vs adm
    by (simp add: new_instance_def)
  with input have run: "WorldState_new newVV put input = Inr ?ws"
    by (simp add: WorldState_new_def new_instance_def)
  have keys: "map fst ?kvs = map variableId bs"
    using len by simp
  have order: "WorldState_keys ?ws = enumeration_order (map variableId bs)"
    using define_all_order [of ?kvs] keys by (simp add: WorldState_keys_def)
  have dist: "distinct (WorldState_keys ?ws)"
    using define_all_invariant [of "[]" ?kvs] by (simp add: WorldState_keys_def index_first_def)
  have get: "WorldState_get ?ws k =
      (case last_binding bs k of None \<Rightarrow> None
       | Some b \<Rightarrow> (case newVV vars b of Inl e \<Rightarrow> None | Inr v \<Rightarrow> Some v))" for k
    using map_of_define_all [of ?kvs "[]" k]
      map_of_last_binding [where newVV = newVV and vars = vars and bs = bs and vs = vs and k = k] vs
    by (simp add: WorldState_get_def split: option.splits)
  from run order dist get show ?thesis
    by (intro exI [of _ ?ws]) (simp add: new_instance_def)
qed

text \<open>
  The state that the constructor builds from an object whose values, taken in
  enumeration order, construct the values \<open>us\<close>, none of which has the variable-id
  \<^verbatim>\<open>id\<close> or \<^verbatim>\<open>__proto__\<close>.
\<close>

lemma WorldState_new_object:
  assumes us: "map (newVV vars) (Object_values ps) = map Inr us"
    and adm: "\<forall>u \<in> set us. variableId u \<noteq> ''id'' \<and> variableId u \<noteq> ''__proto__''"
    and input: "chosen_bindings input = Object ps" "variables input = vars"
  shows "\<exists>ws. WorldState_new newVV put input = Inr ws \<and> proto ws = None
           \<and> WorldState_keys ws = enumeration_order (map variableId us)
           \<and> (\<forall>k. WorldState_get ws k = find (\<lambda>u. variableId u = k) (rev us))"
proof -
  let ?kvs = "map (\<lambda>u. (variableId u, u)) us"
  let ?ws = "new_instance\<lparr>own := define_all ?kvs []\<rparr>"
  have "assign_object newVV put vars (Object_values ps) new_instance
      = Inr (new_instance\<lparr>own := define_all ?kvs (own new_instance)\<rparr>)"
    using assign_object_attached
      [where newVV = newVV and vars = vars and bs = "Object_values ps" and vs = us
         and ws = new_instance and put = put] us adm
    by (simp add: new_instance_def)
  with input have run: "WorldState_new newVV put input = Inr ?ws"
    by (simp add: WorldState_new_def new_instance_def)
  have keys: "map fst ?kvs = map variableId us" by (simp add: comp_def)
  have order: "WorldState_keys ?ws = enumeration_order (map variableId us)"
    using define_all_order [of ?kvs] unfolding keys by (simp add: WorldState_keys_def)
  have get: "WorldState_get ?ws k = find (\<lambda>u. variableId u = k) (rev us)" for k
    using map_of_define_all [of ?kvs "[]" k] map_of_keyed_values [of "rev us" k]
    by (simp add: WorldState_get_def rev_map split: option.splits)
  from run order get show ?thesis
    by (intro exI [of _ ?ws]) (simp add: new_instance_def)
qed

text \<open>
  \<^verbatim>\<open>Object.values\<close> of an object lists, for the keys in enumeration order, the value
  that the last definition of the key has given it.
\<close>

lemma Object_values_order:
  "map Some (Object_values ps) = map (map_of (rev ps)) (enumeration_order (map fst ps))"
proof -
  let ?o = "define_all ps []"
  from define_all_invariant [of "[]" ps] have "distinct (map fst ?o)"
    by (simp add: index_first_def)
  then have "map (\<lambda>k. map_option (\<lambda>v. v) (map_of ?o k)) (map fst ?o)
      = map (\<lambda>p. Some (snd p)) ?o"
    by (rule values_by_key)
  moreover have "map_of ?o k = map_of (rev ps) k" for k
    using map_of_define_all [of ps "[]" k] by (simp split: option.splits)
  ultimately have "map (\<lambda>p. Some (snd p)) ?o = map (map_of (rev ps)) (map fst ?o)"
    by (simp add: option.map_ident)
  then show ?thesis
    by (simp add: Object_values_def define_all_order comp_def)
qed

text \<open>
  An example of an assignment to \<^verbatim>\<open>__proto__\<close>: from the value list
  \<open>[__proto__ = 1, x = 2]\<close>, with a class \<^verbatim>\<open>VariableValue\<close> of plain data properties,
  the constructor returns an instance whose only own property is \<open>x\<close> and whose
  prototype is the value constructed for \<^verbatim>\<open>__proto__\<close>. Neither \<^verbatim>\<open>id\<close> nor
  \<^verbatim>\<open>toGraphQL()\<close> reaches the member of the class on it.
\<close>

lemma WorldState_new_replaced_prototype:
  "WorldState_new VariableValue_new plain_put
     \<lparr>variables = [example_variable ''__proto__'' ''INT'', example_variable ''x'' ''INT''],
      conditions = None,
      variableValues = Some (Array [example_int ''__proto__'' 1, example_int ''x'' 2])\<rparr>
     = Inr \<lparr>own = [(''x'', \<lparr>variableId = ''x'', value = VInt 2\<rparr>)],
            proto = Some \<lparr>variableId = ''__proto__'', value = VInt 1\<rparr>\<rparr>
   \<and> WorldState_id VariableValue_id
        \<lparr>own = [(''x'', \<lparr>variableId = ''x'', value = VInt 2\<rparr>)],
         proto = Some \<lparr>variableId = ''__proto__'', value = VInt 1\<rparr>\<rparr>
     = Inl (On_replacement \<lparr>variableId = ''__proto__'', value = VInt 1\<rparr>)
   \<and> WorldState_toGraphQL VariableValue_toGraphQL
        \<lparr>own = [(''x'', \<lparr>variableId = ''x'', value = VInt 2\<rparr>)],
         proto = Some \<lparr>variableId = ''__proto__'', value = VInt 1\<rparr>\<rparr>
     = Inl (On_replacement \<lparr>variableId = ''__proto__'', value = VInt 1\<rparr>)"
  by (simp add: example_eval)

text \<open>
  An example of a variable-id that hides a member of the class: from the value list
  \<open>[toGraphQL = 1]\<close> the constructor returns an instance with the own property
  \<^verbatim>\<open>toGraphQL\<close>; \<^verbatim>\<open>id\<close> is computed as usual, and the call \<^verbatim>\<open>toGraphQL()\<close> finds the
  value instead of the method (a \<^verbatim>\<open>TypeError\<close>). The variable-id \<^verbatim>\<open>id\<close> makes the
  constructor throw.
\<close>

lemma WorldState_new_hidden_member:
  "WorldState_new VariableValue_new plain_put
     \<lparr>variables = [example_variable ''toGraphQL'' ''INT''], conditions = None,
      variableValues = Some (Array [example_int ''toGraphQL'' 1])\<rparr>
     = Inr \<lparr>own = [(''toGraphQL'', \<lparr>variableId = ''toGraphQL'', value = VInt 1\<rparr>)],
            proto = None\<rparr>
   \<and> WorldState_id VariableValue_id
        \<lparr>own = [(''toGraphQL'', \<lparr>variableId = ''toGraphQL'', value = VInt 1\<rparr>)], proto = None\<rparr>
     = Inr ''{toGraphQL:INT:1}''
   \<and> WorldState_toGraphQL VariableValue_toGraphQL
        \<lparr>own = [(''toGraphQL'', \<lparr>variableId = ''toGraphQL'', value = VInt 1\<rparr>)], proto = None\<rparr>
     = Inl (On_instance \<lparr>variableId = ''toGraphQL'', value = VInt 1\<rparr>)
   \<and> WorldState_new VariableValue_new plain_put
     \<lparr>variables = [example_variable ''id'' ''INT''], conditions = None,
      variableValues = Some (Array [example_int ''id'' 1])\<rparr> = Inl TypeError"
  by (simp add: example_eval)


text \<open>
  An example of an assignment to an own property after the prototype has been replaced:
  the key is found on the instance and the value is replaced, whatever the class
  \<^verbatim>\<open>VariableValue\<close> would do with a key that is looked up on it (here: throw).
\<close>

lemma assign_own_property_first:
  "assign_array VariableValue_new (\<lambda>p k v ws. Inl TypeError)
     [example_variable ''__proto__'' ''INT'', example_variable ''x'' ''INT'']
     [example_int ''x'' 2, example_int ''__proto__'' 1, example_int ''x'' 3] new_instance
     = Inr \<lparr>own = [(''x'', \<lparr>variableId = ''x'', value = VInt 3\<rparr>)],
            proto = Some \<lparr>variableId = ''__proto__'', value = VInt 1\<rparr>\<rparr>
   \<and> assign_array VariableValue_new (\<lambda>p k v ws. Inl TypeError)
     [example_variable ''__proto__'' ''INT'', example_variable ''x'' ''INT'']
     [example_int ''__proto__'' 1, example_int ''x'' 3] new_instance
     = Inl TypeError"
  by (simp add: example_eval)
section \<open>Bindings, identity and output order\<close>

text \<open>
  Claim C10. The constructor takes its bindings from \<^verbatim>\<open>input.conditions\<close> whenever they
  are present, whatever \<^verbatim>\<open>input.variableValues\<close> holds (\<open>other\<close>), and falls back to
  \<^verbatim>\<open>input.variableValues\<close> only when the conditions are absent. For an array \<open>bs\<close> and
  for an object \<open>ps\<close> (whose values, in the enumeration order of its keys, construct
  the values \<open>us\<close>), with no variable-id \<^verbatim>\<open>id\<close> or \<^verbatim>\<open>__proto__\<close>: the state built from the bindings as
  conditions is the state built from them as variable values in the absence of
  conditions; it holds the variable-ids of the bindings in enumeration order, each with
  the value of its last binding. An empty array of conditions gives the empty state, and
  so does an input without conditions and variable values; the \<^verbatim>\<open>id\<close> of the empty state
  is \<^verbatim>\<open>{}\<close> and its \<^verbatim>\<open>toGraphQL()\<close> is the empty list.
\<close>

theorem WorldState_new_conditions_first:
  assumes arr: "\<forall>b \<in> set bs. (\<exists>v. newVV vars b = Inr v) \<and> variableId b \<noteq> ''id''
                  \<and> variableId b \<noteq> ''__proto__''"
    and obj: "map (newVV vars) (Object_values ps) = map Inr us"
    and adm: "\<forall>u \<in> set us. variableId u \<noteq> ''id'' \<and> variableId u \<noteq> ''__proto__''"
  shows "(\<exists>ws. WorldState_new newVV put
                  \<lparr>variables = vars, conditions = Some (Array bs), variableValues = other\<rparr> = Inr ws
            \<and> WorldState_new newVV put
                  \<lparr>variables = vars, conditions = None, variableValues = Some (Array bs)\<rparr> = Inr ws
            \<and> WorldState_keys ws = enumeration_order (map variableId bs)
            \<and> (\<forall>k. WorldState_get ws k =
                  (case last_binding bs k of None \<Rightarrow> None
                   | Some b \<Rightarrow> (case newVV vars b of Inl e \<Rightarrow> None | Inr v \<Rightarrow> Some v))))
       \<and> (\<exists>ws. WorldState_new newVV put
                  \<lparr>variables = vars, conditions = Some (Object ps), variableValues = other\<rparr> = Inr ws
            \<and> WorldState_new newVV put
                  \<lparr>variables = vars, conditions = None, variableValues = Some (Object ps)\<rparr> = Inr ws
            \<and> WorldState_keys ws = enumeration_order (map variableId us)
            \<and> (\<forall>k. WorldState_get ws k = find (\<lambda>u. variableId u = k) (rev us)))
       \<and> map Some (Object_values ps) = map (map_of (rev ps)) (enumeration_order (map fst ps))
       \<and> WorldState_new newVV put
            \<lparr>variables = vars, conditions = Some (Array []), variableValues = other\<rparr>
          = Inr new_instance
       \<and> WorldState_new newVV put
            \<lparr>variables = vars, conditions = None, variableValues = None\<rparr> = Inr new_instance
       \<and> WorldState_id vvId new_instance = Inr ''{}''
       \<and> WorldState_toGraphQL vvToGraphQL new_instance = Inr []"
proof -
  let ?c = "\<lambda>c. \<lparr>variables = vars, conditions = Some c, variableValues = other\<rparr>"
  let ?v = "\<lambda>c. \<lparr>variables = vars, conditions = None, variableValues = Some c\<rparr>"
  have same: "WorldState_new newVV put (?c c) = WorldState_new newVV put (?v c)" for c
    by (cases c) (simp_all add: WorldState_new_def chosen_bindings_def)
  from WorldState_new_array
    [where newVV = newVV and vars = vars and bs = bs and input = "?v (Array bs)" and put = put,
     OF arr]
  obtain ws where "WorldState_new newVV put (?v (Array bs)) = Inr ws"
    "WorldState_keys ws = enumeration_order (map variableId bs)"
    "\<forall>k. WorldState_get ws k =
        (case last_binding bs k of None \<Rightarrow> None
         | Some b \<Rightarrow> (case newVV vars b of Inl e \<Rightarrow> None | Inr v \<Rightarrow> Some v))"
    by (auto simp: chosen_bindings_def)
  with same [of "Array bs"] have A: "\<exists>ws. WorldState_new newVV put (?c (Array bs)) = Inr ws
      \<and> WorldState_new newVV put (?v (Array bs)) = Inr ws
      \<and> WorldState_keys ws = enumeration_order (map variableId bs)
      \<and> (\<forall>k. WorldState_get ws k =
            (case last_binding bs k of None \<Rightarrow> None
             | Some b \<Rightarrow> (case newVV vars b of Inl e \<Rightarrow> None | Inr v \<Rightarrow> Some v)))"
    by simp
  from WorldState_new_object
    [where newVV = newVV and vars = vars and ps = ps and us = us and input = "?v (Object ps)"
       and put = put, OF obj adm]
  obtain ws' where "WorldState_new newVV put (?v (Object ps)) = Inr ws'"
    "WorldState_keys ws' = enumeration_order (map variableId us)"
    "\<forall>k. WorldState_get ws' k = find (\<lambda>u. variableId u = k) (rev us)"
    by (auto simp: chosen_bindings_def)
  with same [of "Object ps"] have B: "\<exists>ws. WorldState_new newVV put (?c (Object ps)) = Inr ws
      \<and> WorldState_new newVV put (?v (Object ps)) = Inr ws
      \<and> WorldState_keys ws = enumeration_order (map variableId us)
      \<and> (\<forall>k. WorldState_get ws k = find (\<lambda>u. variableId u = k) (rev us))"
    by simp
  have C: "WorldState_new newVV put (?c (Array [])) = Inr new_instance"
    "WorldState_new newVV put \<lparr>variables = vars, conditions = None, variableValues = None\<rparr>
       = Inr new_instance"
    "WorldState_id vvId new_instance = Inr ''{}''"
    "WorldState_toGraphQL vvToGraphQL new_instance = Inr []"
    by (simp_all add: WorldState_new_def chosen_bindings_def WorldState_id_def
        WorldState_toGraphQL_def find_member_def new_instance_def id_getter_def
        toGraphQL_method_def)
  from A B C Object_values_order [of ps] show ?thesis by blast
qed

text \<open>
  C10 at the table \<open>[x, 1]\<close>: the conditions \<open>[x = 1]\<close> hide the variable values
  \<open>[x = 7]\<close>; the object with the properties \<open>b : (x = 1)\<close>, \<open>0 : (x = 5)\<close> and
  \<open>a : (1 = 9)\<close>, defined in this order, is read in enumeration order, the property \<open>0\<close>
  first, so that \<open>x\<close> ends as 1 and is enumerated after the variable \<open>1\<close>; and
  an empty array of conditions hides the variable values as well.
\<close>

theorem WorldState_new_conditions_first_witness:
  "WorldState_new VariableValue_new plain_put
     \<lparr>variables = [example_variable ''x'' ''INT'', example_variable ''1'' ''INT''],
      conditions = Some (Array [example_int ''x'' 1]),
      variableValues = Some (Array [example_int ''x'' 7])\<rparr>
     = Inr \<lparr>own = [(''x'', \<lparr>variableId = ''x'', value = VInt 1\<rparr>)], proto = None\<rparr>
   \<and> WorldState_new VariableValue_new plain_put
     \<lparr>variables = [example_variable ''x'' ''INT'', example_variable ''1'' ''INT''],
      conditions = Some (Object [(''b'', example_int ''x'' 1), (''0'', example_int ''x'' 5),
                 (''a'', example_int ''1'' 9)]),
      variableValues = Some (Array [example_int ''x'' 7])\<rparr>
     = Inr \<lparr>own = [(''1'', \<lparr>variableId = ''1'', value = VInt 9\<rparr>),
                   (''x'', \<lparr>variableId = ''x'', value = VInt 1\<rparr>)], proto = None\<rparr>
   \<and> WorldState_new VariableValue_new plain_put
     \<lparr>variables = [example_variable ''x'' ''INT'', example_variable ''1'' ''INT''],
      conditions = Some (Array []),
      variableValues = Some (Array [example_int ''x'' 7])\<rparr> = Inr new_instance
   \<and> (\<exists>ws. WorldState_new VariableValue_new plain_put
          \<lparr>variables = [example_variable ''x'' ''INT'', example_variable ''1'' ''INT''],
           conditions = None,
           variableValues =
             Some (Object [(''b'', example_int ''x'' 1), (''0'', example_int ''x'' 5),
                 (''a'', example_int ''1'' 9)])\<rparr> = Inr ws
        \<and> WorldState_get ws ''1'' = Some \<lparr>variableId = ''1'', value = VInt 9\<rparr>
        \<and> WorldState_get ws ''x'' = Some \<lparr>variableId = ''x'', value = VInt 1\<rparr>)"
proof -
  let ?vars = "[example_variable ''x'' ''INT'', example_variable ''1'' ''INT'']"
  let ?ps = "[(''b'', example_int ''x'' 1), (''0'', example_int ''x'' 5),
                 (''a'', example_int ''1'' 9)]"
  let ?us = "[\<lparr>variableId = ''x'', value = VInt 5\<rparr>, \<lparr>variableId = ''x'', value = VInt 1\<rparr>,
              \<lparr>variableId = ''1'', value = VInt 9\<rparr>]"
  have arr: "\<forall>b \<in> set [example_int ''x'' 1].
      (\<exists>v. VariableValue_new ?vars b = Inr v) \<and> variableId b \<noteq> ''id''
      \<and> variableId b \<noteq> ''__proto__''"
    by (simp add: example_eval)
  have obj: "map (VariableValue_new ?vars) (Object_values ?ps) = map Inr ?us"
    by (simp add: example_eval)
  have adm: "\<forall>u \<in> set ?us. variableId u \<noteq> ''id'' \<and> variableId u \<noteq> ''__proto__''"
    by simp
  have r1: "WorldState_new VariableValue_new plain_put
     \<lparr>variables = ?vars, conditions = Some (Array [example_int ''x'' 1]),
      variableValues = Some (Array [example_int ''x'' 7])\<rparr>
     = Inr \<lparr>own = [(''x'', \<lparr>variableId = ''x'', value = VInt 1\<rparr>)], proto = None\<rparr>"
    by (simp add: example_eval)
  have r2: "WorldState_new VariableValue_new plain_put
     \<lparr>variables = ?vars, conditions = Some (Object ?ps),
      variableValues = Some (Array [example_int ''x'' 7])\<rparr>
     = Inr \<lparr>own = [(''1'', \<lparr>variableId = ''1'', value = VInt 9\<rparr>),
                   (''x'', \<lparr>variableId = ''x'', value = VInt 1\<rparr>)], proto = None\<rparr>"
    by (simp add: example_eval)
  from WorldState_new_conditions_first
    [where newVV = VariableValue_new and vars = ?vars and bs = "[example_int ''x'' 1]"
       and ps = ?ps and us = ?us and put = plain_put
       and other = "Some (Array [example_int ''x'' 7])", OF arr obj adm]
  have "(\<exists>ws. WorldState_new VariableValue_new plain_put
          \<lparr>variables = ?vars, conditions = None, variableValues = Some (Object ?ps)\<rparr> = Inr ws
        \<and> (\<forall>k. WorldState_get ws k = find (\<lambda>u. variableId u = k) (rev ?us)))"
    and "WorldState_new VariableValue_new plain_put
     \<lparr>variables = ?vars, conditions = Some (Array []),
      variableValues = Some (Array [example_int ''x'' 7])\<rparr> = Inr new_instance"
    by blast+
  with r1 r2 show ?thesis by auto
qed

text \<open>
  Claim C2 as stated fails: with the variable table \<open>[x : INT]\<close> and an empty value
  list the constructor returns the empty state; \<open>x\<close> is not mapped, in particular not
  to the zero value \<open>0\<close>.
\<close>

theorem WorldState_new_no_default_counterexample:
  "WorldState_new VariableValue_new plain_put
     \<lparr>variables = [example_variable ''x'' ''INT''], conditions = None,
      variableValues = Some (Array [])\<rparr> = Inr \<lparr>own = [], proto = None\<rparr>
   \<and> WorldState_get \<lparr>own = [], proto = None\<rparr> ''x''
       \<noteq> Some \<lparr>variableId = ''x'', value = VInt 0\<rparr>
   \<and> WorldState_keys (\<lparr>own = [], proto = None\<rparr> :: VariableValue WorldState) = []"
  by (simp add: example_eval)

text \<open>
  Claim C2, amended. For a value list in which every binding constructs a
  \<^verbatim>\<open>VariableValue\<close> and no variable-id is \<^verbatim>\<open>id\<close> or \<^verbatim>\<open>__proto__\<close>, the constructor
  returns a state that maps exactly the variable-ids that occur in the value list; a
  variable that is missing from the value list is not mapped (no zero value is supplied
  for it).
\<close>

theorem WorldState_new_maps_supplied_only:
  assumes "\<forall>b \<in> set bs. (\<exists>v. newVV vars b = Inr v) \<and> variableId b \<noteq> ''id''
             \<and> variableId b \<noteq> ''__proto__''"
  shows "\<exists>ws. WorldState_new newVV put
                 \<lparr>variables = vars, conditions = None, variableValues = Some (Array bs)\<rparr> = Inr ws
              \<and> set (WorldState_keys ws) = set (map variableId bs)
              \<and> (\<forall>k. k \<notin> set (map variableId bs) \<longrightarrow> WorldState_get ws k = None)"
proof -
  let ?input = "\<lparr>variables = vars, conditions = None, variableValues = Some (Array bs)\<rparr>"
  from WorldState_new_array
    [where newVV = newVV and vars = vars and bs = bs and input = ?input and put = put,
     OF assms]
  obtain ws where run: "WorldState_new newVV put ?input = Inr ws"
    and keys: "WorldState_keys ws = enumeration_order (map variableId bs)"
    and get: "\<forall>k. WorldState_get ws k =
        (case last_binding bs k of None \<Rightarrow> None
         | Some b \<Rightarrow> (case newVV vars b of Inl e \<Rightarrow> None | Inr v \<Rightarrow> Some v))"
    by (auto simp: chosen_bindings_def)
  have "set (enumeration_order ks) = set ks" for ks
    by (auto simp: enumeration_order_def)
  with keys have "set (WorldState_keys ws) = set (map variableId bs)" by simp
  moreover have "WorldState_get ws k = None" if "k \<notin> set (map variableId bs)" for k
    using get that last_binding_None [of bs k] by simp
  ultimately show ?thesis using run by blast
qed

text \<open>
  The amended C2 at the table \<open>[x : INT, y : INT]\<close> with the value list \<open>[x = 1]\<close>.
\<close>

theorem WorldState_new_maps_supplied_only_witness:
  "\<exists>ws. WorldState_new VariableValue_new plain_put
          \<lparr>variables = [example_variable ''x'' ''INT'', example_variable ''y'' ''INT''],
           conditions = None, variableValues = Some (Array [example_int ''x'' 1])\<rparr> = Inr ws
        \<and> set (WorldState_keys ws) = {''x''}
        \<and> WorldState_get ws ''y'' = None"
proof -
  let ?vars = "[example_variable ''x'' ''INT'', example_variable ''y'' ''INT'']"
  have ok: "\<forall>b \<in> set [example_int ''x'' 1].
              (\<exists>v. VariableValue_new ?vars b = Inr v)
              \<and> variableId b \<noteq> ''id'' \<and> variableId b \<noteq> ''__proto__''"
    by (simp add: example_eval)
  from WorldState_new_maps_supplied_only
    [where newVV = VariableValue_new and vars = ?vars and bs = "[example_int ''x'' 1]"
       and put = plain_put, OF ok]
  obtain ws where run: "WorldState_new VariableValue_new plain_put
          \<lparr>variables = ?vars, conditions = None,
           variableValues = Some (Array [example_int ''x'' 1])\<rparr> = Inr ws"
    and keys: "set (WorldState_keys ws) = set (map variableId [example_int ''x'' 1])"
    and none: "\<forall>k. k \<notin> set (map variableId [example_int ''x'' 1])
                 \<longrightarrow> WorldState_get ws k = None"
    by blast
  from keys have "set (WorldState_keys ws) = {''x''}" by (simp add: example_int_def)
  moreover from none have "WorldState_get ws ''y'' = None" by (simp add: example_int_def)
  ultimately show ?thesis using run by blast
qed

text \<open>
  Claim C3 as stated fails: the value list \<open>[x = 1, x = 2]\<close> binds \<open>x\<close> twice and the
  constructor returns a state, in which \<open>x\<close> is \<open>2\<close>.
\<close>

theorem WorldState_new_duplicate_counterexample:
  "WorldState_new VariableValue_new plain_put
     \<lparr>variables = [example_variable ''x'' ''INT''], conditions = None,
      variableValues = Some (Array [example_int ''x'' 1, example_int ''x'' 2])\<rparr>
     = Inr \<lparr>own = [(''x'', \<lparr>variableId = ''x'', value = VInt 2\<rparr>)], proto = None\<rparr>"
  by (simp add: example_eval)

text \<open>
  Claim C3, amended. Duplicate bindings are not rejected: whenever every binding of the
  list constructs a \<^verbatim>\<open>VariableValue\<close> and no variable-id is \<^verbatim>\<open>id\<close> or \<^verbatim>\<open>__proto__\<close>, the
  constructor returns a state, and every variable-id holds the value of its last binding
  in the list.
\<close>

theorem WorldState_new_last_binding_wins:
  assumes "\<forall>b \<in> set bs. (\<exists>v. newVV vars b = Inr v) \<and> variableId b \<noteq> ''id''
             \<and> variableId b \<noteq> ''__proto__''"
  shows "\<exists>ws. WorldState_new newVV put
                 \<lparr>variables = vars, conditions = None, variableValues = Some (Array bs)\<rparr> = Inr ws
              \<and> (\<forall>k. WorldState_get ws k =
                    (case last_binding bs k of None \<Rightarrow> None
                     | Some b \<Rightarrow> (case newVV vars b of Inl e \<Rightarrow> None | Inr v \<Rightarrow> Some v)))"
  using WorldState_new_array
    [where newVV = newVV and vars = vars and bs = bs and put = put
       and input = "\<lparr>variables = vars, conditions = None, variableValues = Some (Array bs)\<rparr>",
     OF assms]
  by (auto simp: chosen_bindings_def)

text \<open>
  The amended C3 at the value list \<open>[x = 1, x = 2]\<close>.
\<close>

theorem WorldState_new_last_binding_wins_witness:
  "\<exists>ws. WorldState_new VariableValue_new plain_put
          \<lparr>variables = [example_variable ''x'' ''INT''], conditions = None,
           variableValues = Some (Array [example_int ''x'' 1, example_int ''x'' 2])\<rparr> = Inr ws
        \<and> WorldState_get ws ''x'' = Some \<lparr>variableId = ''x'', value = VInt 2\<rparr>"
proof -
  have ok: "\<forall>b \<in> set [example_int ''x'' 1, example_int ''x'' 2].
              (\<exists>v. VariableValue_new [example_variable ''x'' ''INT''] b = Inr v)
              \<and> variableId b \<noteq> ''id'' \<and> variableId b \<noteq> ''__proto__''"
    by (simp add: example_eval)
  from WorldState_new_last_binding_wins
    [where newVV = VariableValue_new and vars = "[example_variable ''x'' ''INT'']"
       and bs = "[example_int ''x'' 1, example_int ''x'' 2]" and put = plain_put, OF ok]
  obtain ws where run: "WorldState_new VariableValue_new plain_put
          \<lparr>variables = [example_variable ''x'' ''INT''], conditions = None,
           variableValues = Some (Array [example_int ''x'' 1, example_int ''x'' 2])\<rparr> = Inr ws"
    and get: "\<forall>k. WorldState_get ws k =
                (case last_binding [example_int ''x'' 1, example_int ''x'' 2] k of None \<Rightarrow> None
                 | Some b \<Rightarrow> (case VariableValue_new [example_variable ''x'' ''INT''] b of
                     Inl e \<Rightarrow> None | Inr v \<Rightarrow> Some v))"
    by blast
  from get have "WorldState_get ws ''x'' = Some \<lparr>variableId = ''x'', value = VInt 2\<rparr>"
    by (simp add: example_eval)
  with run show ?thesis by blast
qed

text \<open>
  Claim C1 as stated fails: the value lists \<open>[a = 1, b = 2]\<close> and \<open>[b = 2, a = 1]\<close>
  hold the same bindings, the two states are \<open>equal\<close> (their sorted forms agree), and
  their identities differ, because \<^verbatim>\<open>id\<close> joins the values in enumeration order.
\<close>

theorem WorldState_id_order_counterexample:
  "WorldState_new VariableValue_new plain_put
     \<lparr>variables = [example_variable ''a'' ''INT'', example_variable ''b'' ''INT''],
      conditions = None,
      variableValues = Some (Array [example_int ''a'' 1, example_int ''b'' 2])\<rparr>
     = Inr (example_state [(''a'', 1), (''b'', 2)])
   \<and> WorldState_new VariableValue_new plain_put
     \<lparr>variables = [example_variable ''a'' ''INT'', example_variable ''b'' ''INT''],
      conditions = None,
      variableValues = Some (Array [example_int ''b'' 2, example_int ''a'' 1])\<rparr>
     = Inr (example_state [(''b'', 2), (''a'', 1)])
   \<and> equal (example_state [(''a'', 1), (''b'', 2)]) (example_state [(''b'', 2), (''a'', 1)])
   \<and> WorldState_id VariableValue_id (example_state [(''a'', 1), (''b'', 2)])
       = Inr ''{a:INT:1,b:INT:2}''
   \<and> WorldState_id VariableValue_id (example_state [(''b'', 2), (''a'', 1)])
       = Inr ''{b:INT:2,a:INT:1}''"
  by (simp add: example_eval example_state_def equal_def canonical_def)

text \<open>
  Claim C1, amended. The identity follows the enumeration order of the state, not a
  sorted form: for a value list in which every binding constructs a \<^verbatim>\<open>VariableValue\<close>
  and no variable-id is \<^verbatim>\<open>id\<close> or \<^verbatim>\<open>__proto__\<close>, \<^verbatim>\<open>id\<close> is the list, in braces and
  separated by commas, of the ids of the values that the state holds for the variable-ids
  of the list taken in enumeration order (the array indices ascending, then the other
  ids by first binding). Two such value lists over the same variable table that give
  every variable-id the same last binding, and whose variable-ids other than array
  indices first occur in the same order, build the same state, with the same identity.
\<close>

theorem WorldState_id_same_order:
  assumes ok: "\<forall>b \<in> set bs \<union> set bs'. (\<exists>v. newVV vars b = Inr v) \<and> variableId b \<noteq> ''id''
                 \<and> variableId b \<noteq> ''__proto__''"
    and same: "\<forall>k. last_binding bs k = last_binding bs' k"
    and order: "rev (remdups (rev (filter (\<lambda>k. \<not> is_array_index k) (map variableId bs))))
              = rev (remdups (rev (filter (\<lambda>k. \<not> is_array_index k) (map variableId bs'))))"
  shows "\<exists>ws vals.
           WorldState_new newVV put
             \<lparr>variables = vars, conditions = None, variableValues = Some (Array bs)\<rparr> = Inr ws
         \<and> WorldState_new newVV put
             \<lparr>variables = vars, conditions = None, variableValues = Some (Array bs')\<rparr> = Inr ws
         \<and> map Some vals = map (WorldState_get ws) (enumeration_order (map variableId bs))
         \<and> WorldState_id vvId ws = Inr (''{'' @ join '','' (map vvId vals) @ ''}'')"
proof -
  let ?in = "\<lambda>bs. \<lparr>variables = vars, conditions = None, variableValues = Some (Array bs)\<rparr>"
  let ?last = "\<lambda>bs k. case last_binding bs k of None \<Rightarrow> None
         | Some b \<Rightarrow> (case newVV vars b of Inl e \<Rightarrow> None | Inr v \<Rightarrow> Some v)"
  from ok have ok1: "\<forall>b \<in> set bs. (\<exists>v. newVV vars b = Inr v) \<and> variableId b \<noteq> ''id''
                 \<and> variableId b \<noteq> ''__proto__''"
    and ok2: "\<forall>b \<in> set bs'. (\<exists>v. newVV vars b = Inr v) \<and> variableId b \<noteq> ''id''
                 \<and> variableId b \<noteq> ''__proto__''"
    by blast+
  from WorldState_new_array
    [where newVV = newVV and vars = vars and bs = bs and input = "?in bs" and put = put, OF ok1]
  obtain ws where run: "WorldState_new newVV put (?in bs) = Inr ws"
    and proto: "proto ws = None"
    and keys: "WorldState_keys ws = enumeration_order (map variableId bs)"
    and dist: "distinct (WorldState_keys ws)"
    and get: "\<forall>k. WorldState_get ws k = ?last bs k"
    by (auto simp: chosen_bindings_def)
  from WorldState_new_array
    [where newVV = newVV and vars = vars and bs = bs' and input = "?in bs'" and put = put, OF ok2]
  obtain ws' where run': "WorldState_new newVV put (?in bs') = Inr ws'"
    and proto': "proto ws' = None"
    and keys': "WorldState_keys ws' = enumeration_order (map variableId bs')"
    and dist': "distinct (WorldState_keys ws')"
    and get': "\<forall>k. WorldState_get ws' k = ?last bs' k"
    by (auto simp: chosen_bindings_def)
  have keyset: "set (map variableId bs) = set (map variableId bs')"
  proof -
    have "k \<in> set (map variableId bs) \<longleftrightarrow> k \<in> set (map variableId bs')" for k
      using same last_binding_None [of bs k] last_binding_None [of bs' k] by simp
    then show ?thesis by blast
  qed
  then have "set (remdups (filter is_array_index (map variableId bs)))
      = set (remdups (filter is_array_index (map variableId bs')))" by auto
  then have "sort_key dec_val (remdups (filter is_array_index (map variableId bs)))
      = sort_key dec_val (remdups (filter is_array_index (map variableId bs')))"
    by (intro sort_key_indices) simp_all
  with order have "enumeration_order (map variableId bs) = enumeration_order (map variableId bs')"
    by (simp add: enumeration_order_def)
  with keys keys' have k: "map fst (own ws) = map fst (own ws')"
    by (simp add: WorldState_keys_def)
  from get get' same have v: "map_of (own ws) k = map_of (own ws') k" for k
    by (simp add: WorldState_get_def)
  from dist dist' have "distinct (map fst (own ws))" "distinct (map fst (own ws'))"
    by (simp_all add: WorldState_keys_def)
  from props_from_keys [OF this(1)] props_from_keys [OF this(2)] k v
  have "own ws = own ws'" by simp
  with proto proto' have eq: "ws' = ws" by simp
  have "find_member ''id'' ws = On_class"
  proof -
    from ok1 have "''id'' \<notin> set (map variableId bs)" by auto
    with get last_binding_None [of bs "''id''"] have "WorldState_get ws ''id'' = None" by simp
    with proto show ?thesis by (simp add: find_member_def WorldState_get_def)
  qed
  then have id: "WorldState_id vvId ws
      = Inr (''{'' @ join '','' (map vvId (map snd (own ws))) @ ''}'')"
    by (simp add: WorldState_id_def id_getter_def comp_def)
  have "map Some (map snd (own ws)) = map (WorldState_get ws) (WorldState_keys ws)"
    using values_by_key [OF \<open>distinct (map fst (own ws))\<close>, of "\<lambda>v. v"]
    by (simp add: WorldState_get_def WorldState_keys_def comp_def option.map_ident)
  with keys have "map Some (map snd (own ws))
      = map (WorldState_get ws) (enumeration_order (map variableId bs))" by simp
  with run run' eq id show ?thesis by blast
qed

text \<open>
  The amended C1 at the value lists \<open>[2, a, 1]\<close> and \<open>[1, 2, a]\<close>: the array indices are
  enumerated in ascending order whatever their input order.
\<close>

theorem WorldState_id_same_order_witness:
  "\<exists>ws. WorldState_new VariableValue_new plain_put
          \<lparr>variables = [example_variable ''1'' ''INT'', example_variable ''2'' ''INT'',
                        example_variable ''a'' ''INT''],
           conditions = None,
           variableValues =
             Some (Array [example_int ''2'' 20, example_int ''a'' 5, example_int ''1'' 10])\<rparr>
          = Inr ws
        \<and> WorldState_new VariableValue_new plain_put
          \<lparr>variables = [example_variable ''1'' ''INT'', example_variable ''2'' ''INT'',
                        example_variable ''a'' ''INT''],
           conditions = None,
           variableValues =
             Some (Array [example_int ''1'' 10, example_int ''2'' 20, example_int ''a'' 5])\<rparr>
          = Inr ws
        \<and> WorldState_id VariableValue_id ws = Inr ''{1:INT:10,2:INT:20,a:INT:5}''"
proof -
  let ?vars = "[example_variable ''1'' ''INT'', example_variable ''2'' ''INT'',
                example_variable ''a'' ''INT'']"
  let ?bs = "[example_int ''2'' 20, example_int ''a'' 5, example_int ''1'' 10]"
  let ?bs' = "[example_int ''1'' 10, example_int ''2'' 20, example_int ''a'' 5]"
  let ?in = "\<lparr>variables = ?vars, conditions = None, variableValues = Some (Array ?bs)\<rparr>"
  let ?in' = "\<lparr>variables = ?vars, conditions = None, variableValues = Some (Array ?bs')\<rparr>"
  let ?ws = "example_state [(''1'', 10), (''2'', 20), (''a'', 5)]"
  have h1: "\<forall>b \<in> set ?bs \<union> set ?bs'. (\<exists>v. VariableValue_new ?vars b = Inr v)
      \<and> variableId b \<noteq> ''id'' \<and> variableId b \<noteq> ''__proto__''"
    by (simp add: example_eval)
  have h2: "\<forall>k. last_binding ?bs k = last_binding ?bs' k"
    by (simp add: last_binding_def example_int_def)
  have h3: "rev (remdups (rev (filter (\<lambda>k. \<not> is_array_index k) (map variableId ?bs))))
      = rev (remdups (rev (filter (\<lambda>k. \<not> is_array_index k) (map variableId ?bs'))))"
    by (simp add: example_eval)
  have run: "WorldState_new VariableValue_new plain_put ?in = Inr ?ws"
    by (simp add: example_eval example_state_def)
  have order: "enumeration_order (map variableId ?bs) = [''1'', ''2'', ''a'']"
    by (simp add: enumeration_order_def example_eval)
  from WorldState_id_same_order
    [where newVV = VariableValue_new and vars = ?vars and bs = ?bs and bs' = ?bs'
       and put = plain_put and vvId = VariableValue_id, OF h1 h2 h3]
  obtain ws vals where r1: "WorldState_new VariableValue_new plain_put ?in = Inr ws"
    and r2: "WorldState_new VariableValue_new plain_put ?in' = Inr ws"
    and vals: "map Some vals = map (WorldState_get ws) (enumeration_order (map variableId ?bs))"
    and id: "WorldState_id VariableValue_id ws
        = Inr (''{'' @ join '','' (map VariableValue_id vals) @ ''}'')"
    by blast
  from run r1 have ws: "ws = ?ws" by simp
  from vals have "vals = [\<lparr>variableId = ''1'', value = VInt 10\<rparr>,
      \<lparr>variableId = ''2'', value = VInt 20\<rparr>, \<lparr>variableId = ''a'', value = VInt 5\<rparr>]"
    unfolding order ws by (auto simp: WorldState_get_def example_state_def)
  with id have "WorldState_id VariableValue_id ws = Inr ''{1:INT:10,2:INT:20,a:INT:5}''"
    by (simp add: VariableValue_id_def show_int_def)
  with r1 r2 show ?thesis by blast
qed

text \<open>
  Claim C4 as stated fails: with the table \<open>[a, b, c]\<close> and the value list
  \<open>[b = 2, a = 1]\<close>, \<^verbatim>\<open>toGraphQL()\<close> lists \<open>b\<close> before \<open>a\<close> and does not list \<open>c\<close>.
\<close>

theorem WorldState_toGraphQL_order_counterexample:
  "WorldState_new VariableValue_new plain_put
     \<lparr>variables = [example_variable ''a'' ''INT'', example_variable ''b'' ''INT'',
                   example_variable ''c'' ''INT''],
      conditions = None,
      variableValues = Some (Array [example_int ''b'' 2, example_int ''a'' 1])\<rparr>
     = Inr (example_state [(''b'', 2), (''a'', 1)])
   \<and> map_sum id (map variableId)
        (WorldState_toGraphQL VariableValue_toGraphQL (example_state [(''b'', 2), (''a'', 1)]))
       = Inr [''b'', ''a'']
   \<and> \<not> sorted [''b'', ''a'']"
  by (simp add: example_eval example_state_def)

text \<open>
  Claim C4, amended. For a value list in which every binding constructs a
  \<^verbatim>\<open>VariableValue\<close> and no variable-id is \<^verbatim>\<open>id\<close>, \<^verbatim>\<open>__proto__\<close> or \<^verbatim>\<open>toGraphQL\<close>,
  \<^verbatim>\<open>toGraphQL()\<close> of the state built from the list returns one value for each variable-id
  bound in the list, in enumeration order: the ids that are array indices in ascending
  numeric order, then the other ids in the order of their first binding.
\<close>

theorem WorldState_toGraphQL_order:
  assumes "\<forall>b \<in> set bs. (\<exists>v. newVV vars b = Inr v) \<and> variableId b \<noteq> ''id''
             \<and> variableId b \<noteq> ''__proto__'' \<and> variableId b \<noteq> ''toGraphQL''"
  shows "\<exists>ws out.
           WorldState_new newVV put
             \<lparr>variables = vars, conditions = None, variableValues = Some (Array bs)\<rparr> = Inr ws
         \<and> WorldState_toGraphQL vvToGraphQL ws = Inr out
         \<and> WorldState_keys ws = enumeration_order (map variableId bs)
         \<and> map Some out = map (\<lambda>k. map_option vvToGraphQL (WorldState_get ws k))
                            (enumeration_order (map variableId bs))"
proof -
  let ?input = "\<lparr>variables = vars, conditions = None, variableValues = Some (Array bs)\<rparr>"
  from assms have ok: "\<forall>b \<in> set bs. (\<exists>v. newVV vars b = Inr v) \<and> variableId b \<noteq> ''id''
             \<and> variableId b \<noteq> ''__proto__''" by blast
  from WorldState_new_array
    [where newVV = newVV and vars = vars and bs = bs and input = ?input and put = put, OF ok]
  obtain ws where run: "WorldState_new newVV put ?input = Inr ws"
    and proto: "proto ws = None"
    and keys: "WorldState_keys ws = enumeration_order (map variableId bs)"
    and dist: "distinct (WorldState_keys ws)"
    and get: "\<forall>k. WorldState_get ws k =
        (case last_binding bs k of None \<Rightarrow> None
         | Some b \<Rightarrow> (case newVV vars b of Inl e \<Rightarrow> None | Inr v \<Rightarrow> Some v))"
    by (auto simp: chosen_bindings_def)
  have "find_member ''toGraphQL'' ws = On_class"
  proof -
    from assms have "''toGraphQL'' \<notin> set (map variableId bs)" by auto
    with get last_binding_None [of bs "''toGraphQL''"]
    have "WorldState_get ws ''toGraphQL'' = None" by simp
    with proto show ?thesis by (simp add: find_member_def WorldState_get_def)
  qed
  then have out: "WorldState_toGraphQL vvToGraphQL ws
      = Inr (map (\<lambda>p. vvToGraphQL (snd p)) (own ws))"
    by (simp add: WorldState_toGraphQL_def toGraphQL_method_def)
  from dist have "distinct (map fst (own ws))" by (simp add: WorldState_keys_def)
  then have v: "map (\<lambda>k. map_option vvToGraphQL (map_of (own ws) k)) (map fst (own ws))
      = map (\<lambda>p. Some (vvToGraphQL (snd p))) (own ws)"
    by (rule values_by_key)
  from keys have k: "map fst (own ws) = enumeration_order (map variableId bs)"
    by (simp add: WorldState_keys_def)
  have "map Some (map (\<lambda>p. vvToGraphQL (snd p)) (own ws))
      = map (\<lambda>p. Some (vvToGraphQL (snd p))) (own ws)" by simp
  also note v [symmetric]
  also have "map (\<lambda>k. map_option vvToGraphQL (map_of (own ws) k)) (map fst (own ws))
      = map (\<lambda>k. map_option vvToGraphQL (WorldState_get ws k))
          (enumeration_order (map variableId bs))"
    unfolding k by (simp add: WorldState_get_def)
  finally have "map Some (map (\<lambda>p. vvToGraphQL (snd p)) (own ws))
      = map (\<lambda>k. map_option vvToGraphQL (WorldState_get ws k))
          (enumeration_order (map variableId bs))" .
  with run out keys show ?thesis by blast
qed

text \<open>
  The amended C4 at the value list \<open>[2, a, 1]\<close>.
\<close>

theorem WorldState_toGraphQL_order_witness:
  "\<exists>ws out. WorldState_new VariableValue_new plain_put
          \<lparr>variables = [example_variable ''1'' ''INT'', example_variable ''2'' ''INT'',
                        example_variable ''a'' ''INT''],
           conditions = None,
           variableValues =
             Some (Array [example_int ''2'' 20, example_int ''a'' 5, example_int ''1'' 10])\<rparr>
          = Inr ws
        \<and> WorldState_toGraphQL VariableValue_toGraphQL ws = Inr out
        \<and> WorldState_keys ws = [''1'', ''2'', ''a'']
        \<and> map variableId out = [''1'', ''2'', ''a'']"
proof -
  let ?vars = "[example_variable ''1'' ''INT'', example_variable ''2'' ''INT'',
                example_variable ''a'' ''INT'']"
  let ?bs = "[example_int ''2'' 20, example_int ''a'' 5, example_int ''1'' 10]"
  let ?in = "\<lparr>variables = ?vars, conditions = None, variableValues = Some (Array ?bs)\<rparr>"
  let ?ws = "example_state [(''1'', 10), (''2'', 20), (''a'', 5)]"
  have h: "\<forall>b \<in> set ?bs. (\<exists>v. VariableValue_new ?vars b = Inr v)
      \<and> variableId b \<noteq> ''id'' \<and> variableId b \<noteq> ''__proto__''
      \<and> variableId b \<noteq> ''toGraphQL''"
    by (simp add: example_eval)
  have run: "WorldState_new VariableValue_new plain_put ?in = Inr ?ws"
    by (simp add: example_eval example_state_def)
  have order: "enumeration_order (map variableId ?bs) = [''1'', ''2'', ''a'']"
    by (simp add: enumeration_order_def example_eval)
  from WorldState_toGraphQL_order
    [where newVV = VariableValue_new and vars = ?vars and bs = ?bs and put = plain_put
       and vvToGraphQL = VariableValue_toGraphQL, OF h]
  obtain ws out where r: "WorldState_new VariableValue_new plain_put ?in = Inr ws"
    and out: "WorldState_toGraphQL VariableValue_toGraphQL ws = Inr out"
    and keys: "WorldState_keys ws = enumeration_order (map variableId ?bs)"
    and vals: "map Some out = map (\<lambda>k. map_option VariableValue_toGraphQL (WorldState_get ws k))
                            (enumeration_order (map variableId ?bs))"
    by blast
  from run r have ws: "ws = ?ws" by simp
  from vals have "map variableId out = [''1'', ''2'', ''a'']"
    unfolding order ws
    by (auto simp: WorldState_get_def example_state_def VariableValue_toGraphQL_def)
  with r out keys order show ?thesis by auto
qed

section \<open>Properties of the transition semantics and of the planner\<close>

lemmas semantics_eval =
  example_effect_def example_condition_def example_state_def example_transition_def
  fire_def isEnabled_def goalsSatisfied_def evalCondition_def applyEffect_def
  get_value_def resolve_def WorldState_with_def comparisonOp_def assignmentOp_def
  ordering_def int64_def truncated_div_def

lemma applyEffects_append:
  "applyEffects (es @ es') w =
     (case applyEffects es w of Inl err \<Rightarrow> Inl err | Inr w' \<Rightarrow> applyEffects es' w')"
  by (induction es arbitrary: w) (auto split: sum.splits)

lemma fire_enabled:
  "isEnabled t s = Inr True \<Longrightarrow>
     fire t s = (case applyEffects (t_effects t) s of Inl e \<Rightarrow> Inl (Failed e) | Inr w \<Rightarrow> Inr w)"
  by (simp add: fire_def)

text \<open>
  In the store, the effects rewrite the cell of the working copy and no other cell; the
  state that they leave in it is the state that the effects compute from its content.
\<close>

lemma applyEffects_at_working:
  "working < length \<sigma> \<Longrightarrow>
     applyEffects_at es working \<sigma> =
       (case applyEffects es (\<sigma> ! working) of
          Inl err \<Rightarrow> Inl err
        | Inr s \<Rightarrow> Inr (\<sigma>[working := s]))"
proof (induction es arbitrary: \<sigma>)
  case Nil
  then show ?case by simp
next
  case (Cons e es)
  show ?case
  proof (cases "applyEffect e (\<sigma> ! working)")
    case (Inl err)
    then show ?thesis
      by (auto simp: applyEffect_def split: sum.splits if_splits)
  next
    case (Inr s)
    then obtain lhs rhs new where step: "get_value (\<sigma> ! working) (variableId e) = Inr lhs"
      "resolve (e_argument e) (\<sigma> ! working) = Inr rhs" "tag_of lhs = tag_of rhs"
      "assignmentOp (assignmentOperator e) lhs rhs = Inr new"
      "s = WorldState_with (variableId e) new (\<sigma> ! working)"
      by (auto simp: applyEffect_def split: sum.splits if_splits)
    from Cons.prems have "working < length (\<sigma>[working := s])" by simp
    from Cons.IH [OF this] Cons.prems Inr step show ?thesis
      by (simp split: sum.splits)
  qed
qed

lemma fire_at_fire:
  assumes "state < length \<sigma>"
  shows "fire_at t state \<sigma> =
     (case fire t (\<sigma> ! state) of
        Inl err \<Rightarrow> Inl err
      | Inr s \<Rightarrow> Inr (length \<sigma>, \<sigma> @ [s]))"
proof -
  have "applyEffects_at es (length \<sigma>) (\<sigma> @ [\<sigma> ! state]) =
      (case applyEffects es (\<sigma> ! state) of
         Inl err \<Rightarrow> Inl err
       | Inr s \<Rightarrow> Inr (\<sigma> @ [s]))" for es
    using applyEffects_at_working [of "length \<sigma>" "\<sigma> @ [\<sigma> ! state]" es]
    by (simp split: sum.splits)
  then show ?thesis
    by (simp add: fire_at_def fire_def copy_state_def split: sum.splits)
qed

text \<open>
  Claim C9. Firing an enabled transition applies its effects in list order to a working
  copy: the effect at any position of the list reads its left-hand side and resolves its
  argument in the state \<open>working\<close> produced by the effects before it, not in the input
  state, and the effects after it start from the state it has written. With the states
  held in a store, the firing computes this very result into a cell that did not exist
  before, the working copy, and leaves every cell that existed as it was, the cell of the
  input state among them.
\<close>

theorem fire_sequential:
  assumes "state < length \<sigma>" and "isEnabled t (\<sigma> ! state) = Inr True"
  shows "(\<forall>es e es'. t_effects t = es @ e # es' \<longrightarrow>
            fire t (\<sigma> ! state) =
              (case applyEffects es (\<sigma> ! state) of
                 Inl err \<Rightarrow> Inl (Failed err)
               | Inr working \<Rightarrow>
                   (case get_value working (variableId e) of
                      Inl err \<Rightarrow> Inl (Failed err)
                    | Inr lhs \<Rightarrow>
                        (case resolve (e_argument e) working of
                           Inl err \<Rightarrow> Inl (Failed err)
                         | Inr rhs \<Rightarrow>
                             if tag_of lhs = tag_of rhs then
                               (case assignmentOp (assignmentOperator e) lhs rhs of
                                  Inl err \<Rightarrow> Inl (Failed err)
                                | Inr new \<Rightarrow>
                                    (case applyEffects es'
                                            (WorldState_with (variableId e) new working) of
                                       Inl err \<Rightarrow> Inl (Failed err)
                                     | Inr final \<Rightarrow> Inr final))
                             else Inl (Failed TypeMismatch)))))
       \<and> (case fire_at t state \<sigma> of
            Inl err \<Rightarrow> fire t (\<sigma> ! state) = Inl err
          | Inr (working, \<sigma>') \<Rightarrow>
              fire t (\<sigma> ! state) = Inr (\<sigma>' ! working)
              \<and> working = length \<sigma> \<and> length \<sigma>' = Suc (length \<sigma>)
              \<and> (\<forall>r < length \<sigma>. \<sigma>' ! r = \<sigma> ! r)
              \<and> \<sigma>' ! state = \<sigma> ! state)"
proof -
  have A: "fire t (\<sigma> ! state) =
      (case applyEffects es (\<sigma> ! state) of
         Inl err \<Rightarrow> Inl (Failed err)
       | Inr working \<Rightarrow>
           (case get_value working (variableId e) of
              Inl err \<Rightarrow> Inl (Failed err)
            | Inr lhs \<Rightarrow>
                (case resolve (e_argument e) working of
                   Inl err \<Rightarrow> Inl (Failed err)
                 | Inr rhs \<Rightarrow>
                     if tag_of lhs = tag_of rhs then
                       (case assignmentOp (assignmentOperator e) lhs rhs of
                          Inl err \<Rightarrow> Inl (Failed err)
                        | Inr new \<Rightarrow>
                            (case applyEffects es'
                                    (WorldState_with (variableId e) new working) of
                               Inl err \<Rightarrow> Inl (Failed err)
                             | Inr final \<Rightarrow> Inr final))
                     else Inl (Failed TypeMismatch))))"
    if "t_effects t = es @ e # es'" for es e es'
    using assms(2) that
    by (simp add: fire_enabled applyEffects_append applyEffect_def split: sum.splits)
  have B: "(case fire_at t state \<sigma> of
            Inl err \<Rightarrow> fire t (\<sigma> ! state) = Inl err
          | Inr (working, \<sigma>') \<Rightarrow>
              fire t (\<sigma> ! state) = Inr (\<sigma>' ! working)
              \<and> working = length \<sigma> \<and> length \<sigma>' = Suc (length \<sigma>)
              \<and> (\<forall>r < length \<sigma>. \<sigma>' ! r = \<sigma> ! r)
              \<and> \<sigma>' ! state = \<sigma> ! state)"
    using assms(1) by (simp add: fire_at_fire nth_append split: sum.splits)
  from A B show ?thesis by blast
qed

text \<open>
  C9 at the effects \<open>[x ADD 1, y SET x]\<close> from \<open>x = 1, y = 0\<close>, in a store that holds
  this state only: the second effect sees the updated \<open>x\<close> and \<open>y\<close> becomes 2, in a
  new cell; the cell of the input state still holds \<open>x = 1, y = 0\<close>.
\<close>

theorem fire_sequential_witness:
  "fire (example_transition ''t'' [example_condition ''x'' ''LT'' (Literal (VInt 3))]
           [example_effect ''x'' ''ADD'' (Literal (VInt 1)),
            example_effect ''y'' ''SET'' (Reference ''x'')] None 1)
        (example_state [(''x'', 1), (''y'', 0)])
     = Inr (example_state [(''x'', 2), (''y'', 2)])
   \<and> (\<exists>working \<sigma>'.
        fire_at (example_transition ''t'' [example_condition ''x'' ''LT'' (Literal (VInt 3))]
           [example_effect ''x'' ''ADD'' (Literal (VInt 1)),
            example_effect ''y'' ''SET'' (Reference ''x'')] None 1)
          0 [example_state [(''x'', 1), (''y'', 0)]] = Inr (working, \<sigma>')
        \<and> \<sigma>' ! working = example_state [(''x'', 2), (''y'', 2)]
        \<and> \<sigma>' ! 0 = example_state [(''x'', 1), (''y'', 0)])"
proof -
  let ?t = "example_transition ''t'' [example_condition ''x'' ''LT'' (Literal (VInt 3))]
           [example_effect ''x'' ''ADD'' (Literal (VInt 1)),
            example_effect ''y'' ''SET'' (Reference ''x'')] None 1"
  let ?s = "example_state [(''x'', 1), (''y'', 0)]"
  have h1: "0 < length [?s]" by simp
  have h2: "isEnabled ?t ([?s] ! 0) = Inr True"
    by (simp add: semantics_eval example_eval)
  have h3: "t_effects ?t = [example_effect ''x'' ''ADD'' (Literal (VInt 1))]
      @ example_effect ''y'' ''SET'' (Reference ''x'') # []"
    by (simp add: example_transition_def)
  note C9 = fire_sequential [OF h1 h2]
  from C9 h3 have f: "fire ?t ?s = Inr (example_state [(''x'', 2), (''y'', 2)])"
    by (simp add: semantics_eval example_eval)
  from C9 have "case fire_at ?t 0 [?s] of
            Inl err \<Rightarrow> fire ?t ([?s] ! 0) = Inl err
          | Inr (working, \<sigma>') \<Rightarrow>
              fire ?t ([?s] ! 0) = Inr (\<sigma>' ! working)
              \<and> working = length [?s] \<and> length \<sigma>' = Suc (length [?s])
              \<and> (\<forall>r < length [?s]. \<sigma>' ! r = [?s] ! r)
              \<and> \<sigma>' ! 0 = [?s] ! 0"
    by blast
  with f have "\<exists>working \<sigma>'. fire_at ?t 0 [?s] = Inr (working, \<sigma>')
        \<and> \<sigma>' ! working = example_state [(''x'', 2), (''y'', 2)] \<and> \<sigma>' ! 0 = ?s"
    by (cases "fire_at ?t 0 [?s]") auto
  with f show ?thesis by blast
qed

text \<open>
  Claim C8. When an effect of an enabled transition performs \<open>DIV\<close> with a zero
  right-hand operand (integer or float), the firing fails with \<open>ArithmeticError\<close>, and
  the expansion of the node treats the transition as not applicable: it adds no edge for
  it, leaves the search state as it is and goes on with the remaining transitions.
\<close>

theorem division_by_zero_prunes:
  assumes "isEnabled t s = Inr True"
    and "t_effects t = es @ e # es'"
    and "applyEffects es s = Inr working"
    and "assignmentOperator e = ''DIV''"
    and "get_value working (variableId e) = Inr lhs"
    and "resolve (e_argument e) working = Inr rhs"
    and "(\<exists>x. lhs = VInt x \<and> rhs = VInt 0) \<or> (\<exists>x. lhs = VFloat x \<and> rhs = VFloat 0)"
  shows "fire t s = Inl (Failed ArithmeticError)
         \<and> expand h (t # ts) n s g st = expand h ts n s g st"
proof -
  from assms(4-7) have "applyEffect e working = Inl ArithmeticError"
    by (auto simp: applyEffect_def assignmentOp_def)
  with assms(1-3) have "fire t s = Inl (Failed ArithmeticError)"
    by (simp add: fire_enabled applyEffects_append)
  then show ?thesis by simp
qed

text \<open>
  C8 at the effect \<open>x DIV y\<close> in the state \<open>x = 6, y = 0\<close>.
\<close>

theorem division_by_zero_prunes_witness:
  "fire (example_transition ''t_div'' [] [example_effect ''x'' ''DIV'' (Reference ''y'')] None 1)
        (example_state [(''x'', 6), (''y'', 0)]) = Inl (Failed ArithmeticError)
   \<and> expand (\<lambda>s. 0)
        [example_transition ''t_div'' [] [example_effect ''x'' ''DIV'' (Reference ''y'')] None 1]
        ''n'' (example_state [(''x'', 6), (''y'', 0)]) 0
        (initial_search (\<lambda>s. 0) (example_state [(''x'', 6), (''y'', 0)]))
      = Inr (initial_search (\<lambda>s. 0) (example_state [(''x'', 6), (''y'', 0)]))"
proof -
  let ?t = "example_transition ''t_div'' [] [example_effect ''x'' ''DIV'' (Reference ''y'')] None 1"
  let ?s = "example_state [(''x'', 6), (''y'', 0)]"
  have h1: "isEnabled ?t ?s = Inr True"
    by (simp add: semantics_eval)
  have h2: "t_effects ?t = [] @ example_effect ''x'' ''DIV'' (Reference ''y'') # []"
    by (simp add: example_transition_def)
  have h3: "applyEffects [] ?s = Inr ?s" by simp
  have h4: "assignmentOperator (example_effect ''x'' ''DIV'' (Reference ''y'')) = ''DIV''"
    by (simp add: example_effect_def)
  have h5: "get_value ?s (variableId (example_effect ''x'' ''DIV'' (Reference ''y''))) = Inr (VInt 6)"
    by (simp add: semantics_eval example_eval)
  have h6: "resolve (e_argument (example_effect ''x'' ''DIV'' (Reference ''y''))) ?s = Inr (VInt 0)"
    by (simp add: semantics_eval example_eval)
  have h7: "(\<exists>x. VInt 6 = VInt x \<and> VInt 0 = VInt 0) \<or> (\<exists>x. VInt 6 = VFloat x \<and> VInt 0 = VFloat 0)"
    by simp
  from division_by_zero_prunes [OF h1 h2 h3 h4 h5 h6 h7, of "\<lambda>s. 0" "[]" "''n''" 0
      "initial_search (\<lambda>s. 0) ?s"]
  show ?thesis by simp
qed



















text \<open>
  Claim C7. For a model that passes the validation and an initial state that builds and
  that \<^verbatim>\<open>toGraphQL()\<close> lists, the planner with an empty goal list returns a plan with
  status \<open>FOUND\<close>, no transitions and a final state equal to the initial state, whatever
  the heuristic and the bound are.
\<close>

theorem empty_goal_found:
  assumes "WorldState_new VariableValue_new plain_put
             \<lparr>variables = vars, conditions = None, variableValues = Some (Array initial)\<rparr> = Inr s0"
    and "WorldState_toGraphQL VariableValue_toGraphQL s0 = Inr listed"
    and "validate vars ts [] = None"
  shows "generateActionPlan_with h bound vars ts initial []
           = Some (Inr \<lparr>actions = [], transitions = [], totalSteps = 0, totalCost = 0,
                initialState = listed, finalState = listed, status = ''FOUND''\<rparr>)
         \<and> generateActionPlan vars ts initial []
           = Some (Inr \<lparr>actions = [], transitions = [], totalSteps = 0, totalCost = 0,
                initialState = listed, finalState = listed, status = ''FOUND''\<rparr>)"
proof -
  have found: "search h' [] ts bound' 0 (initial_search h' s0)
      = Inr (Found \<lparr>f_score = h' s0, g_score = 0, seq = 0, node = identity s0\<rparr> s0
               ((initial_search h' s0)\<lparr>open_set := []\<rparr>))" for h' bound'
    by (subst search.simps) (simp add: initial_search_def goalsSatisfied_def)
  have "plan_search h' bound' ts [] s0
      = Some (Inr \<lparr>actions = [], transitions = [], totalSteps = 0, totalCost = 0,
                initialState = listed, finalState = listed, status = ''FOUND''\<rparr>)" for h' bound'
    using assms(2)
    by (simp add: plan_search_def found walk.simps found_plan_def state_values_def)
  with assms show ?thesis
    by (simp add: generateActionPlan_def generateActionPlan_with_def)
qed

text \<open>
  C7 at the model of scenario S6 with an empty goal list.
\<close>

theorem empty_goal_found_witness:
  "generateActionPlan [example_variable ''x'' ''INT'']
     [example_transition ''t_noop'' [example_condition ''x'' ''EQ'' (Literal (VInt 0))]
        [example_effect ''x'' ''SET'' (Literal (VInt 0))] None 0]
     [example_int ''x'' 0] []
   = Some (Inr \<lparr>actions = [], transitions = [], totalSteps = 0, totalCost = 0,
        initialState = [VariableValue_toGraphQL \<lparr>variableId = ''x'', value = VInt 0\<rparr>],
        finalState = [VariableValue_toGraphQL \<lparr>variableId = ''x'', value = VInt 0\<rparr>],
        status = ''FOUND''\<rparr>)"
proof -
  let ?vars = "[example_variable ''x'' ''INT'']"
  let ?ts = "[example_transition ''t_noop'' [example_condition ''x'' ''EQ'' (Literal (VInt 0))]
        [example_effect ''x'' ''SET'' (Literal (VInt 0))] None 0]"
  have h1: "WorldState_new VariableValue_new plain_put
      \<lparr>variables = ?vars, conditions = None, variableValues = Some (Array [example_int ''x'' 0])\<rparr>
    = Inr (example_state [(''x'', 0)])"
    by (simp add: example_eval example_state_def)
  have h2: "WorldState_toGraphQL VariableValue_toGraphQL (example_state [(''x'', 0)])
    = Inr [VariableValue_toGraphQL \<lparr>variableId = ''x'', value = VInt 0\<rparr>]"
    by (simp add: WorldState_toGraphQL_def find_member_def toGraphQL_method_def
        example_state_def)
  have h3: "validate ?vars ?ts [] = None"
    by (simp add: validate_def check_condition_def check_effect_def check_typing_def
        operand_type_def comparison_types_def assignment_types_def find_variable_def
        example_variable_def example_transition_def example_condition_def example_effect_def)
  from empty_goal_found [OF h1 h2 h3] show ?thesis by simp
qed


section \<open>The invariant of the search\<close>

lemma pick_mem: "pick a bs \<in> set (a # bs)"
  by (induction bs arbitrary: a) auto

lemma pick_min: "x \<in> set (a # bs) \<Longrightarrow> f_score (pick a bs) \<le> f_score x"
proof (induction bs arbitrary: a x)
  case Nil
  then show ?case by simp
next
  case (Cons b bs)
  let ?c = "if before b a then b else a"
  have c: "f_score ?c \<le> f_score a" "f_score ?c \<le> f_score b"
    by (auto simp: before_def)
  have "f_score (pick ?c bs) \<le> f_score ?c" using Cons.IH [where a = ?c and x = ?c] by simp
  with c have "f_score (pick ?c bs) \<le> f_score a" "f_score (pick ?c bs) \<le> f_score b"
    by linarith+
  moreover have "f_score (pick ?c bs) \<le> f_score x" if "x \<in> set bs"
    using Cons.IH [where a = ?c and x = x] that by simp
  ultimately show ?case using Cons.prems by auto
qed

lemma cost_of_member:
  "distinct (map t_id ts) \<Longrightarrow> t \<in> set ts \<Longrightarrow> cost_of ts (t_id t) = t_cost t"
proof (induction ts)
  case Nil
  then show ?case by simp
next
  case (Cons u us)
  then show ?case by (auto simp: cost_of_def rev_image_eqI)
qed

lemma find_by_id:
  "distinct (map t_id ts) \<Longrightarrow> t \<in> set ts \<Longrightarrow> u \<in> set ts \<Longrightarrow> t_id t = t_id u \<Longrightarrow> t = u"
  by (metis distinct_map inj_onD)

lemmas inv_defs =
  search_inv_def inv_root_def inv_open_def inv_unique_def inv_current_def inv_rel_def
  inv_frontier_def handled_def

lemma initial_inv:
  "search_inv h ts (identity s0) (initial_search h s0)
     \<lparr>ent = (\<lambda>q. \<lparr>f_score = h s0, g_score = 0, seq = 0, node = identity s0\<rparr>),
      par = (\<lambda>q. 0), via = (\<lambda>q. []), lin = (\<lambda>q. []), vp = (\<lambda>q. []),
      expanded = {}, rel = {}\<rparr>"
  by (simp add: inv_defs initial_search_def entry_ok_def)

lemma handled_expanding:
  assumes E: "expanding h ts start m s D st G"
    and dist: "distinct (map t_id ts)" and t: "t \<in> set ts"
    and known: "\<forall>s'. fire t s = Inr s' \<longrightarrow>
        (\<exists>b. bestG st (identity s') = Some b \<and> b \<le> g_score m + t_cost t)"
  shows "expanding h ts start m s (insert (t_id t) D) st
           (G\<lparr>rel := insert (seq m, t_id t) (rel G)\<rparr>)"
proof -
  let ?G = "G\<lparr>rel := insert (seq m, t_id t) (rel G)\<rparr>"
  from E have I: "search_inv h ts start st G" and m: "ent G (seq m) = m"
    and sm: "nodes st (node m) = Some s"
    by (simp_all add: expanding_def)
  have new: "handled ts st G (seq m) (t_id t)"
    unfolding handled_def
  proof (intro allI impI)
    fix c assume "c < inserted st"
      and "c \<noteq> 0 \<and> node (ent G (par G c)) = node (ent G (seq m)) \<and> via G c = t_id t"
    then have c: "c < inserted st" "c \<noteq> 0" "node (ent G (par G c)) = node (ent G (seq m))"
      "via G c = t_id t" by simp_all
    from I c(1,2) have "child_ok ts start st G c" by (simp add: search_inv_def)
    then obtain u s1 s1' where u: "u \<in> set ts" "t_id u = via G c"
      and s1: "nodes st (node (ent G (par G c))) = Some s1"
      and f: "fire u s1 = Inr s1'" "identity s1' = node (ent G c)"
      by (auto simp: child_ok_def)
    from u c(4) t dist have "u = t" by (auto intro: find_by_id)
    moreover from s1 c(3) m sm have "s1 = s" by simp
    ultimately have "fire t s = Inr s1'" using f by simp
    with known f(2) m cost_of_member [OF dist t]
    show "\<exists>b. bestG st (node (ent G c)) = Some b
        \<and> b \<le> g_score (ent G (seq m)) + cost_of ts (t_id t)" by auto
  qed
  have frame: "entry_ok h ts st ?G q = entry_ok h ts st G q"
    "child_ok ts start st ?G q = child_ok ts start st G q"
    "inv_root start st ?G = inv_root start st G"
    "inv_open st ?G = inv_open st G"
    "inv_unique st ?G = inv_unique st G"
    "inv_current st ?G = inv_current st G"
    "inv_frontier st ?G = inv_frontier st G"
    "expanding_frontier m st ?G = expanding_frontier m st G"
    "handled ts st ?G q i = handled ts st G q i" for q i
    by (simp_all add: entry_ok_def child_ok_def inv_root_def inv_open_def inv_unique_def
        inv_current_def inv_frontier_def expanding_frontier_def handled_def)
  from E have "seq m \<in> expanded G" by (simp add: expanding_def)
  with I new have "search_inv h ts start st ?G"
    by (simp add: search_inv_def frame inv_rel_def)
  with E show ?thesis
    by (auto simp: expanding_def frame)
qed

lemma relax_fires:
  "(case bestG st (identity s') of None \<Rightarrow> True | Some b \<Rightarrow> g + t_cost t < b) \<Longrightarrow>
   relax h n g t s' st =
     st\<lparr>open_set := open_set st @
           [\<lparr>f_score = g + t_cost t
                + h (case nodes st (identity s') of None \<Rightarrow> s' | Some s \<Rightarrow> s),
             g_score = g + t_cost t, seq = inserted st, node = identity s'\<rparr>],
        bestG := (bestG st)(identity s' \<mapsto> g + t_cost t),
        cameFrom := (cameFrom st)(identity s' \<mapsto> (n, t_id t)),
        nodes := (nodes st)(identity s' \<mapsto>
                   (case nodes st (identity s') of None \<Rightarrow> s' | Some s \<Rightarrow> s)),
        inserted := inserted st + 1\<rparr>"
  by (simp add: relax_def Let_def)

lemma relax_idle:
  "\<not> (case bestG st (identity s') of None \<Rightarrow> True | Some b \<Rightarrow> g + t_cost t < b) \<Longrightarrow>
   relax h n g t s' st = st"
  by (simp add: relax_def Let_def)

lemma relax_expanding_new:
  assumes E: "expanding h ts start m s D st G"
    and dist: "distinct (map t_id ts)" and nonneg: "\<forall>t \<in> set ts. 0 \<le> t_cost t"
    and t: "t \<in> set ts" and fired: "fire t s = Inr s'"
    and i_def: "i = identity s'" and g'_def: "g' = g_score m + t_cost t"
    and fires: "case bestG st i of None \<Rightarrow> True | Some b \<Rightarrow> g' < b"
    and known_def: "known = (case nodes st i of None \<Rightarrow> s' | Some s \<Rightarrow> s)"
    and e_def: "e = \<lparr>f_score = g' + h known, g_score = g', seq = inserted st, node = i\<rparr>"
    and st'_def: "st' = st\<lparr>open_set := open_set st @ [e], bestG := (bestG st)(i \<mapsto> g'),
        cameFrom := (cameFrom st)(i \<mapsto> (node m, t_id t)),
        nodes := (nodes st)(i \<mapsto> known), inserted := inserted st + 1\<rparr>"
    and G'_def: "G' = record_child m (t_id t) e G"
  shows "expanding h ts start m s (insert (t_id t) D) st' G'"
proof -
  define q where "q = inserted st"
  from E have I: "search_inv h ts start st G"
    and mexp: "seq m \<in> expanded G" and m: "ent G (seq m) = m"
    and sm: "nodes st (node m) = Some s" and bm: "bestG st (node m) = Some (g_score m)"
    and rel1: "(expanded G - {seq m}) \<times> t_id ` set ts \<subseteq> rel G"
    and rel2: "{seq m} \<times> D \<subseteq> rel G"
    and EF: "expanding_frontier m st G"
    by (simp_all add: expanding_def)
  from I have root: "inv_root start st G"
    and entries: "\<And>x. x < q \<Longrightarrow> entry_ok h ts st G x"
    and children: "\<And>x. x < q \<Longrightarrow> x \<noteq> 0 \<Longrightarrow> child_ok ts start st G x"
    and opn: "inv_open st G" and uniq: "inv_unique st G" and cur: "inv_current st G"
    and rl: "inv_rel ts st G" and fr: "inv_frontier st G"
    by (simp_all add: search_inv_def q_def)
  from root have expq: "\<And>x. x \<in> expanded G \<Longrightarrow> x < q" and qpos: "0 < q"
    and start0: "node (ent G 0) = start" "lin G 0 = []" "vp G 0 = []"
    and bstart: "bestG st start = Some 0"
    by (simp_all add: inv_root_def q_def)
  from mexp expq have mq: "seq m < q" by simp
  have fields:
    "open_set st' = open_set st @ [e]" "bestG st' = (bestG st)(i \<mapsto> g')"
    "cameFrom st' = (cameFrom st)(i \<mapsto> (node m, t_id t))"
    "nodes st' = (nodes st)(i \<mapsto> known)" "inserted st' = Suc q"
    by (simp_all add: st'_def q_def)
  have e: "seq e = q" "node e = i" "g_score e = g'" "f_score e = g' + h known"
    by (simp_all add: e_def q_def)
  have G': "expanded G' = expanded G" "rel G' = insert (seq m, t_id t) (rel G)"
    "ent G' q = e" "par G' q = seq m" "via G' q = t_id t"
    "lin G' q = lin G (seq m) @ [seq m]" "vp G' q = vp G (seq m) @ [t_id t]"
    by (simp_all add: G'_def record_child_def e)
  have old: "ent G' x = ent G x" "par G' x = par G x" "via G' x = via G x"
    "lin G' x = lin G x" "vp G' x = vp G x" if "x < q" for x
    using that by (simp_all add: G'_def record_child_def e)
  note okm = entries [OF mq, unfolded entry_ok_def m]
  have em: "0 \<le> g_score m"
    "sum_list (map (cost_of ts) (vp G (seq m))) = g_score m"
    "set (lin G (seq m)) \<subseteq> expanded G"
    "\<And>a. a \<in> set (lin G (seq m)) \<Longrightarrow> g_score (ent G a) \<le> g_score m"
    "\<And>a. a \<in> set (lin G (seq m)) \<Longrightarrow> set (lin G a) \<subseteq> set (lin G (seq m))"
    using okm by blast+
  from nonneg t have ct: "0 \<le> t_cost t" by simp
  with em(1) have g'0: "0 \<le> g'" "g_score m \<le> g'" by (simp_all add: g'_def)
  have istart: "i \<noteq> start"
    using fires bstart g'0 by auto
  have inode: "i \<noteq> node m"
    using fires bm g'0 by auto
  have lower: "g' < g_score (ent G x)" if "x < q" "node (ent G x) = i" for x
  proof -
    from entries [OF that(1)] that(2) obtain b where "bestG st i = Some b" "b \<le> g_score (ent G x)"
      by (auto simp: entry_ok_def)
    with fires show ?thesis by simp
  qed
  have nodes_stable: "nodes st' n = Some s1" if "nodes st n = Some s1" for n s1
    using that by (auto simp: fields known_def)
  have best_lower: "\<exists>b'. bestG st' n = Some b' \<and> b' \<le> b" if "bestG st n = Some b" for n b
    using that fires by (auto simp: fields)

  have c_root: "inv_root start st' G'"
    using root istart qpos by (simp add: inv_root_def fields G' old less_Suc_eq q_def [symmetric])

  have c_entry_old: "entry_ok h ts st' G' x" if x: "x < q" for x
  proof -
    note ok = entries [OF x, unfolded entry_ok_def]
    have lin_old: "\<And>a. a \<in> set (lin G x) \<Longrightarrow> a < q" using ok expq by auto
    have 1: "\<exists>b. bestG st' (node (ent G x)) = Some b \<and> b \<le> g_score (ent G x)"
      using ok best_lower by (meson order_trans)
    have 2: "\<exists>s. nodes st' (node (ent G x)) = Some s
        \<and> f_score (ent G x) = g_score (ent G x) + h s"
      using ok nodes_stable by blast
    have 3: "x \<in> expanded G \<or> ent G x \<in> set (open_set st @ [e])
        \<or> (\<exists>b. bestG st' (node (ent G x)) = Some b \<and> b < g_score (ent G x))"
    proof -
      from ok consider "x \<in> expanded G" | "ent G x \<in> set (open_set st)"
        | b where "bestG st (node (ent G x)) = Some b" "b < g_score (ent G x)" by blast
      then show ?thesis
      proof cases
        case 3
        with best_lower [OF 3(1)] show ?thesis by (meson le_less_trans)
      qed auto
    qed
    from ok 1 2 3 lin_old show ?thesis
      by (simp add: entry_ok_def old x fields G')
  qed
  have c_entry_new: "entry_ok h ts st' G' q"
  proof -
    have a: "sum_list (map (cost_of ts) (vp G (seq m) @ [t_id t])) = g'"
      using em(2) cost_of_member [OF dist t] by (simp add: g'_def)
    have b: "g_score (ent G' a) \<le> g' \<and> set (lin G' a) \<subseteq> set (lin G (seq m) @ [seq m])"
      if "a \<in> set (lin G (seq m) @ [seq m])" for a
    proof (cases "a = seq m")
      case True
      with mq m g'0 show ?thesis by (auto simp: old)
    next
      case False
      with that have a: "a \<in> set (lin G (seq m))" by simp
      with em(3) expq have "a < q" by auto
      with em(4) [OF a] em(5) [OF a] g'0 show ?thesis by (auto simp: old)
    qed
    from a b g'0 em(3) mexp show ?thesis
      by (simp add: entry_ok_def G' e fields)
  qed
  have c_entries: "\<forall>x < inserted st'. entry_ok h ts st' G' x"
    using c_entry_old c_entry_new by (auto simp: fields less_Suc_eq)

  have c_child_old: "child_ok ts start st' G' x" if x: "x < q" "x \<noteq> 0" for x
  proof -
    note ok = children [OF x, unfolded child_ok_def]
    from ok x have p: "par G x < q" by simp
    from ok nodes_stable have "\<exists>t \<in> set ts. \<exists>s s'. t_id t = via G x
        \<and> nodes st' (node (ent G (par G x))) = Some s
        \<and> fire t s = Inr s' \<and> identity s' = node (ent G x)" by blast
    with ok p show ?thesis
      by (simp add: child_ok_def old x G')
  qed
  have c_child_new: "child_ok ts start st' G' q"
  proof -
    from sm have "nodes st' (node m) = Some s" by (rule nodes_stable)
    with t fired mq mexp istart m show ?thesis
      by (auto simp: child_ok_def G' old e i_def)
  qed
  have c_children: "\<forall>x < inserted st'. x \<noteq> 0 \<longrightarrow> child_ok ts start st' G' x"
    using c_child_old c_child_new by (auto simp: fields less_Suc_eq)

  have c_open: "inv_open st' G'"
  proof -
    from opn have o: "\<forall>x \<in> set (open_set st).
        seq x < q \<and> ent G (seq x) = x \<and> seq x \<notin> expanded G"
      and d: "distinct (map seq (open_set st))"
      by (simp_all add: inv_open_def q_def)
    from o have "q \<notin> seq ` set (open_set st)" by auto
    moreover have "q \<notin> expanded G" using expq by auto
    moreover from o have "\<forall>x \<in> set (open_set st). seq x < Suc q \<and> ent G' (seq x) = x"
      by (auto simp: old)
    ultimately show ?thesis using o d
      by (simp add: inv_open_def fields G' e)
  qed

  have c_unique: "inv_unique st' G'"
    unfolding inv_unique_def
  proof (intro allI impI)
    fix a b assume "a < b \<and> b < inserted st' \<and> node (ent G' a) = node (ent G' b)"
    then have ab: "a < b" "b < Suc q" "node (ent G' a) = node (ent G' b)"
      by (simp_all add: fields)
    show "g_score (ent G' b) < g_score (ent G' a)"
    proof (cases "b = q")
      case True
      with ab have "a < q" "node (ent G a) = i" by (simp_all add: old G' e)
      from lower [OF this] True ab(1) show ?thesis by (simp add: old G' e)
    next
      case False
      with ab have "b < q" "a < q" by simp_all
      with ab uniq show ?thesis by (simp add: inv_unique_def old q_def)
    qed
  qed

  have c_current: "inv_current st' G'"
    unfolding inv_current_def
  proof (intro allI impI)
    fix n b assume nb: "bestG st' n = Some b"
    show "\<exists>x < inserted st'. node (ent G' x) = n \<and> g_score (ent G' x) = b
        \<and> cameFrom st' n = (if x = 0 then None else Some (node (ent G' (par G' x)), via G' x))"
    proof (cases "n = i")
      case True
      with nb have "b = g'" by (simp add: fields)
      with True qpos mq m show ?thesis
        by (intro exI [of _ q]) (simp add: fields G' e old)
    next
      case False
      with nb have "bestG st n = Some b" by (simp add: fields)
      with cur obtain x where x: "x < q" "node (ent G x) = n" "g_score (ent G x) = b"
        "cameFrom st n = (if x = 0 then None else Some (node (ent G (par G x)), via G x))"
        by (auto simp: inv_current_def q_def)
      have "par G x < q" if "x \<noteq> 0"
        using children [OF x(1) that] x(1) by (simp add: child_ok_def)
      with x False show ?thesis
        by (intro exI [of _ x]) (auto simp: fields old)
    qed
  qed

  have best_i: "bestG st' i = Some g'" by (simp add: fields)
  have handled_old: "handled ts st' G' x j"
    if x: "x \<in> expanded G" and hd: "handled ts st G x j" for x j
    unfolding handled_def
  proof (intro allI impI)
    fix c assume "c < inserted st'"
      and "c \<noteq> 0 \<and> node (ent G' (par G' c)) = node (ent G' x) \<and> via G' c = j"
    then have c: "c < Suc q" "c \<noteq> 0" "node (ent G' (par G' c)) = node (ent G' x)"
      "via G' c = j" by (simp_all add: fields)
    from x expq have xq: "x < q" by simp
    show "\<exists>b. bestG st' (node (ent G' c)) = Some b \<and> b \<le> g_score (ent G' x) + cost_of ts j"
    proof (cases "c = q")
      case True
      with c(3,4) mq m xq have same: "node (ent G x) = node m" and j: "j = t_id t"
        by (simp_all add: G' old)
      from entries [OF xq] same bm have "g_score m \<le> g_score (ent G x)"
        by (auto simp: entry_ok_def)
      with True j xq cost_of_member [OF dist t] best_i show ?thesis
        by (simp add: G' e old g'_def)
    next
      case False
      with c have cq: "c < q" by simp
      with children [OF cq c(2)] have "par G c < q" by (simp add: child_ok_def)
      with c cq xq have "node (ent G (par G c)) = node (ent G x)" "via G c = j"
        by (simp_all add: old)
      with hd cq c(2) obtain b where "bestG st (node (ent G c)) = Some b"
        "b \<le> g_score (ent G x) + cost_of ts j"
        by (auto simp: handled_def q_def)
      with best_lower [OF this(1)] cq xq show ?thesis
        by (auto simp: old)
    qed
  qed
  have handled_new: "handled ts st' G' (seq m) (t_id t)"
    unfolding handled_def
  proof (intro allI impI)
    fix c assume "c < inserted st'"
      and "c \<noteq> 0 \<and> node (ent G' (par G' c)) = node (ent G' (seq m)) \<and> via G' c = t_id t"
    then have c: "c < Suc q" "c \<noteq> 0" "node (ent G' (par G' c)) = node (ent G' (seq m))"
      "via G' c = t_id t" by (simp_all add: fields)
    have "node (ent G' c) = i"
    proof (cases "c = q")
      case True
      then show ?thesis by (simp add: G' e)
    next
      case False
      with c have cq: "c < q" by simp
      note ok = children [OF cq c(2), unfolded child_ok_def]
      from ok cq have pq: "par G c < q" by simp
      from ok obtain u s1 s1' where u: "u \<in> set ts" "t_id u = via G c"
        and s1: "nodes st (node (ent G (par G c))) = Some s1"
        and f: "fire u s1 = Inr s1'" "identity s1' = node (ent G c)"
        by blast
      from u c(4) cq t dist have "u = t" by (auto simp: old intro: find_by_id)
      moreover from s1 c(3) cq pq mq m sm have "s1 = s" by (simp add: old)
      ultimately have "s1' = s'" using f fired by simp
      with f cq show ?thesis by (simp add: old i_def)
    qed
    with best_i mq m cost_of_member [OF dist t]
    show "\<exists>b. bestG st' (node (ent G' c)) = Some b
        \<and> b \<le> g_score (ent G' (seq m)) + cost_of ts (t_id t)"
      by (simp add: old g'_def)
  qed
  have c_rel: "inv_rel ts st' G'"
    using rl mexp handled_old handled_new
    by (auto simp: inv_rel_def G')

  from fr have K: "\<And>ev x y. ev \<in> expanded G \<Longrightarrow> x \<in> set (open_set st)
      \<Longrightarrow> y \<in> set (open_set st) \<Longrightarrow> ev \<in> set (lin G (seq y))
      \<Longrightarrow> ev \<notin> set (lin G (seq x))
      \<Longrightarrow> f_score (ent G ev) \<le> f_score x \<or> f_score (ent G ev) \<le> f_score y"
    by (auto simp: inv_frontier_def)
  from EF have L1: "\<And>x. x \<in> set (open_set st) \<Longrightarrow>
        seq m \<in> set (lin G (seq x)) \<or> f_score m \<le> f_score x"
    and L2: "\<And>ev y. ev \<in> expanded G \<Longrightarrow> y \<in> set (open_set st)
        \<Longrightarrow> ev \<in> set (lin G (seq m)) \<Longrightarrow> ev \<notin> set (lin G (seq y))
        \<Longrightarrow> f_score (ent G ev) \<le> f_score y"
    and L3: "\<And>ev y. ev \<in> expanded G \<Longrightarrow> y \<in> set (open_set st)
        \<Longrightarrow> ev \<in> set (lin G (seq y)) \<Longrightarrow> ev \<notin> set (lin G (seq m)) \<Longrightarrow> ev \<noteq> seq m
        \<Longrightarrow> f_score (ent G ev) \<le> f_score y"
    by (auto simp: expanding_frontier_def)
  from opn have oq: "\<And>x. x \<in> set (open_set st) \<Longrightarrow> seq x < q"
    by (simp add: inv_open_def q_def)
  have lin_open: "lin G' (seq x) = lin G (seq x)" if "x \<in> set (open_set st)" for x
    using oq [OF that] by (simp add: old)
  have lin_e: "lin G' (seq e) = lin G (seq m) @ [seq m]" by (simp add: e G')
  have f_old: "f_score (ent G' ev) = f_score (ent G ev)" if "ev \<in> expanded G" for ev
    using expq [OF that] by (simp add: old)

  have c_frontier: "inv_frontier st' G'"
    unfolding inv_frontier_def
  proof (intro ballI impI)
    fix ev x y
    assume ev: "ev \<in> expanded G'" and x: "x \<in> set (open_set st')"
      and y: "y \<in> set (open_set st')"
      and io: "ev \<in> set (lin G' (seq y)) \<and> ev \<notin> set (lin G' (seq x))"
    from ev have ev': "ev \<in> expanded G" by (simp add: G')
    from x y have xy: "x \<in> set (open_set st) \<or> x = e" "y \<in> set (open_set st) \<or> y = e"
      by (auto simp: fields)
    show "f_score (ent G' ev) \<le> f_score x \<or> f_score (ent G' ev) \<le> f_score y"
    proof (cases "y = e")
      case True
      note ye = this
      show ?thesis
      proof (cases "x = e")
        case True
        with ye io show ?thesis by simp
      next
        case False
        with xy have xo: "x \<in> set (open_set st)" by simp
        from io ye have inm: "ev \<in> set (lin G (seq m)) \<or> ev = seq m"
          and out: "ev \<notin> set (lin G (seq x))"
          by (auto simp: lin_e lin_open [OF xo])
        from inm show ?thesis
        proof
          assume "ev \<in> set (lin G (seq m))"
          from L2 [OF ev' xo this out] show ?thesis by (simp add: f_old [OF ev'])
        next
          assume evm: "ev = seq m"
          with mq m have "f_score (ent G' ev) = f_score m" by (simp add: old)
          with L1 [OF xo] out evm show ?thesis by auto
        qed
      qed
    next
      case False
      with xy have yo: "y \<in> set (open_set st)" by simp
      show ?thesis
      proof (cases "x = e")
        case True
        with io have "ev \<in> set (lin G (seq y))" "ev \<notin> set (lin G (seq m))" "ev \<noteq> seq m"
          by (auto simp: lin_e lin_open [OF yo])
        from L3 [OF ev' yo this] show ?thesis by (simp add: f_old [OF ev'])
      next
        case False
        with xy have xo: "x \<in> set (open_set st)" by simp
        from io have "ev \<in> set (lin G (seq y))" "ev \<notin> set (lin G (seq x))"
          by (simp_all add: lin_open [OF xo] lin_open [OF yo])
        from K [OF ev' xo yo this] show ?thesis by (simp add: f_old [OF ev'])
      qed
    qed
  qed

  have c_exp_frontier: "expanding_frontier m st' G'"
  proof -
    have lm: "lin G' (seq m) = lin G (seq m)" using mq by (simp add: old)
    have 1: "seq m \<in> set (lin G' (seq x)) \<or> f_score m \<le> f_score x"
      if "x \<in> set (open_set st')" for x
    proof (cases "x = e")
      case True
      then show ?thesis by (simp add: lin_e)
    next
      case False
      with that have xo: "x \<in> set (open_set st)" by (simp add: fields)
      from L1 [OF xo] show ?thesis by (simp add: lin_open [OF xo])
    qed
    have 2: "f_score (ent G' ev) \<le> f_score y"
      if "ev \<in> expanded G'" "y \<in> set (open_set st')"
        "ev \<in> set (lin G' (seq m)) \<and> ev \<notin> set (lin G' (seq y))" for ev y
    proof (cases "y = e")
      case True
      with that(3) show ?thesis by (auto simp: lin_e lm)
    next
      case False
      with that have yo: "y \<in> set (open_set st)" and ev': "ev \<in> expanded G"
        by (simp_all add: fields G')
      from that(3) L2 [OF ev' yo] show ?thesis
        by (simp add: lm lin_open [OF yo] f_old [OF ev'])
    qed
    have 3: "f_score (ent G' ev) \<le> f_score y"
      if "ev \<in> expanded G'" "y \<in> set (open_set st')"
        "ev \<in> set (lin G' (seq y)) \<and> ev \<notin> set (lin G' (seq m)) \<and> ev \<noteq> seq m" for ev y
    proof (cases "y = e")
      case True
      with that(3) show ?thesis by (auto simp: lin_e lm)
    next
      case False
      with that have yo: "y \<in> set (open_set st)" and ev': "ev \<in> expanded G"
        by (simp_all add: fields G')
      from that(3) L3 [OF ev' yo] show ?thesis
        by (simp add: lm lin_open [OF yo] f_old [OF ev'])
    qed
    from 1 2 3 show ?thesis unfolding expanding_frontier_def by blast
  qed

  have "search_inv h ts start st' G'"
    using c_root c_entries c_children c_open c_unique c_current c_rel c_frontier
    by (simp add: search_inv_def)
  moreover have "ent G' (seq m) = m" using mq m by (simp add: old)
  moreover have "nodes st' (node m) = Some s" using sm by (rule nodes_stable)
  moreover have "bestG st' (node m) = Some (g_score m)" using bm inode by (simp add: fields)
  moreover have "(expanded G' - {seq m}) \<times> t_id ` set ts \<subseteq> rel G'"
    using rel1 by (auto simp: G')
  moreover have "{seq m} \<times> insert (t_id t) D \<subseteq> rel G'"
    using rel2 by (auto simp: G')
  ultimately show ?thesis
    using mexp c_exp_frontier by (simp add: expanding_def G')
qed

lemma relax_expanding:
  assumes E: "expanding h ts start m s D st G"
    and dist: "distinct (map t_id ts)" and nonneg: "\<forall>t \<in> set ts. 0 \<le> t_cost t"
    and t: "t \<in> set ts" and fired: "fire t s = Inr s'"
  shows "\<exists>G'. expanding h ts start m s (insert (t_id t) D)
           (relax h (node m) (g_score m) t s' st) G'"
proof (cases "case bestG st (identity s') of None \<Rightarrow> True
    | Some b \<Rightarrow> g_score m + t_cost t < b")
  case True
  from relax_expanding_new [OF E dist nonneg t fired refl refl True refl refl refl refl]
  show ?thesis by (auto simp: relax_fires [OF True])
next
  case False
  then have "\<forall>s''. fire t s = Inr s'' \<longrightarrow>
      (\<exists>b. bestG st (identity s'') = Some b \<and> b \<le> g_score m + t_cost t)"
    using fired by (auto split: option.splits)
  from handled_expanding [OF E dist t this] show ?thesis
    by (auto simp: relax_idle [OF False])
qed

lemma expand_expanding:
  assumes dist: "distinct (map t_id ts)" and nonneg: "\<forall>t \<in> set ts. 0 \<le> t_cost t"
  shows "set us \<subseteq> set ts \<Longrightarrow> expanding h ts start m s D st G \<Longrightarrow>
     expand h us (node m) s (g_score m) st = Inr st2 \<Longrightarrow>
     \<exists>G2. expanding h ts start m s (D \<union> t_id ` set us) st2 G2"
proof (induction us arbitrary: D st G)
  case Nil
  then show ?case by auto
next
  case (Cons t us)
  from Cons.prems(1) have t: "t \<in> set ts" and us: "set us \<subseteq> set ts" by simp_all
  have D: "insert (t_id t) D \<union> t_id ` set us = D \<union> t_id ` set (t # us)" by auto
  show ?case
  proof (cases "fire t s")
    case (Inr s')
    from relax_expanding [OF Cons.prems(2) dist nonneg t Inr]
    obtain G1 where G1: "expanding h ts start m s (insert (t_id t) D)
        (relax h (node m) (g_score m) t s' st) G1" by blast
    from Cons.prems(3) Inr
    have "expand h us (node m) s (g_score m) (relax h (node m) (g_score m) t s' st) = Inr st2"
      by simp
    from Cons.IH [OF us G1 this] show ?thesis by (simp only: D)
  next
    case (Inl err)
    then have "\<forall>s'. fire t s = Inr s' \<longrightarrow>
        (\<exists>b. bestG st (identity s') = Some b \<and> b \<le> g_score m + t_cost t)" by simp
    from handled_expanding [OF Cons.prems(2) dist t this]
    have G1: "expanding h ts start m s (insert (t_id t) D) st
        (G\<lparr>rel := insert (seq m, t_id t) (rel G)\<rparr>)" .
    from Cons.prems(3) Inl have "expand h us (node m) s (g_score m) st = Inr st2"
      by (auto split: fire_error.splits if_splits)
    from Cons.IH [OF us G1 this] show ?thesis by (simp only: D)
  qed
qed

lemma distinct_map_remove1:
  "distinct (map f xs) \<Longrightarrow> distinct (map f (remove1 x xs))"
  by (induction xs) (auto dest: notin_set_remove1 [rotated] simp: image_iff)

lemma set_remove1_seq:
  "distinct (map seq xs) \<Longrightarrow> m \<in> set xs \<Longrightarrow>
     set (remove1 m xs) = set xs - {m} \<and> (\<forall>x \<in> set (remove1 m xs). seq x \<noteq> seq m)"
proof -
  assume d: "distinct (map seq xs)" and m: "m \<in> set xs"
  from d have dx: "distinct xs" by (simp add: distinct_map)
  then have s: "set (remove1 m xs) = set xs - {m}" by simp
  from d have "inj_on seq (set xs)" by (simp add: distinct_map)
  with m s have "\<forall>x \<in> set (remove1 m xs). seq x \<noteq> seq m"
    by (auto dest: inj_onD)
  with s show ?thesis by simp
qed

lemma skip_inv:
  assumes I: "search_inv h ts start st G" and m: "m \<in> set (open_set st)"
    and stale: "bestG st (node m) = Some b" "b < g_score m"
  shows "search_inv h ts start (st\<lparr>open_set := remove1 m (open_set st)\<rparr>) G"
proof -
  let ?st = "st\<lparr>open_set := remove1 m (open_set st)\<rparr>"
  from I have opn: "inv_open st G" by (simp add: search_inv_def)
  then have d: "distinct (map seq (open_set st))" and em: "ent G (seq m) = m"
    using m by (auto simp: inv_open_def)
  from set_remove1_seq [OF d m] have s: "set (remove1 m (open_set st)) = set (open_set st) - {m}"
    by simp
  have entries: "entry_ok h ts ?st G q" if "entry_ok h ts st G q" for q
  proof -
    from that have "q \<in> expanded G \<or> ent G q \<in> set (open_set st) - {m}
        \<or> (\<exists>b. bestG st (node (ent G q)) = Some b \<and> b < g_score (ent G q))"
      using stale by (auto simp: entry_ok_def)
    with that show ?thesis by (simp add: entry_ok_def s)
  qed
  have children: "child_ok ts start ?st G q = child_ok ts start st G q" for q
    by (simp add: child_ok_def)
  from opn d have o: "inv_open ?st G"
    by (auto simp: inv_open_def s distinct_map_remove1)
  from I have "inv_frontier ?st G"
    by (auto simp: search_inv_def inv_frontier_def s)
  moreover have "inv_root start ?st G = inv_root start st G"
    "inv_unique ?st G = inv_unique st G" "inv_current ?st G = inv_current st G"
    "inv_rel ts ?st G = inv_rel ts st G"
    by (simp_all add: inv_root_def inv_unique_def inv_current_def inv_rel_def handled_def)
  ultimately show ?thesis using I entries o
    by (simp add: search_inv_def children)
qed

lemma end_expanding:
  assumes "expanding h ts start m s D st G" and "t_id ` set ts \<subseteq> D"
  shows "search_inv h ts start st G \<and> expanded G \<times> t_id ` set ts \<subseteq> rel G"
proof -
  from assms(1) have r1: "(expanded G - {seq m}) \<times> t_id ` set ts \<subseteq> rel G"
    and r2: "{seq m} \<times> D \<subseteq> rel G" and I: "search_inv h ts start st G"
    by (simp_all add: expanding_def)
  have "(a, i) \<in> rel G" if "a \<in> expanded G" "i \<in> t_id ` set ts" for a i
  proof (cases "a = seq m")
    case True
    with that assms(2) r2 show ?thesis by blast
  next
    case False
    with that r1 show ?thesis by blast
  qed
  with I show ?thesis by auto
qed

lemma begin_expanding:
  assumes I: "search_inv h ts start st G"
    and settled: "expanded G \<times> t_id ` set ts \<subseteq> rel G"
    and m: "m \<in> set (open_set st)"
    and least: "\<forall>x \<in> set (open_set st). f_score m \<le> f_score x"
    and fresh: "\<not> (case bestG st (node m) of None \<Rightarrow> False | Some b \<Rightarrow> b < g_score m)"
    and s: "nodes st (node m) = Some s"
  shows "expanding h ts start m s {} (st\<lparr>open_set := remove1 m (open_set st)\<rparr>)
           (G\<lparr>expanded := insert (seq m) (expanded G)\<rparr>)"
proof -
  let ?st = "st\<lparr>open_set := remove1 m (open_set st)\<rparr>"
  let ?G = "G\<lparr>expanded := insert (seq m) (expanded G)\<rparr>"
  from I have root: "inv_root start st G"
    and entries: "\<And>x. x < inserted st \<Longrightarrow> entry_ok h ts st G x"
    and children: "\<And>x. x < inserted st \<Longrightarrow> x \<noteq> 0 \<Longrightarrow> child_ok ts start st G x"
    and opn: "inv_open st G" and uniq: "inv_unique st G" and cur: "inv_current st G"
    and rl: "inv_rel ts st G" and fr: "inv_frontier st G"
    by (simp_all add: search_inv_def)
  from opn m have d: "distinct (map seq (open_set st))" and em: "ent G (seq m) = m"
    and mq: "seq m < inserted st" and mnew: "seq m \<notin> expanded G"
    by (auto simp: inv_open_def)
  from set_remove1_seq [OF d m]
  have rest: "set (remove1 m (open_set st)) = set (open_set st) - {m}"
    and others: "\<forall>x \<in> set (remove1 m (open_set st)). seq x \<noteq> seq m"
    by simp_all
  note okm = entries [OF mq, unfolded entry_ok_def em]
  from okm have linm: "set (lin G (seq m)) \<subseteq> expanded G" by blast
  have c_root: "inv_root start ?st ?G"
    using root mq by (simp add: inv_root_def)
  have c_entries: "entry_ok h ts ?st ?G q" if q: "q < inserted st" for q
  proof -
    note ok = entries [OF q, unfolded entry_ok_def]
    have "q = seq m" if "ent G q = m" using ok that by auto
    with ok have "q \<in> insert (seq m) (expanded G) \<or> ent G q \<in> set (open_set st) - {m}
        \<or> (\<exists>b. bestG st (node (ent G q)) = Some b \<and> b < g_score (ent G q))"
      by auto
    moreover from ok have "set (lin G q) \<subseteq> insert (seq m) (expanded G)" by auto
    ultimately show ?thesis using ok by (simp add: entry_ok_def rest)
  qed
  have c_children: "child_ok ts start ?st ?G q" if "q < inserted st" "q \<noteq> 0" for q
    using children [OF that] by (simp add: child_ok_def)
  have c_open: "inv_open ?st ?G"
    using opn others by (auto simp: inv_open_def rest distinct_map_remove1)
  have c_rel: "inv_rel ts ?st ?G"
    using rl by (simp add: inv_rel_def handled_def)
  from fr have K: "\<And>ev x y. ev \<in> expanded G \<Longrightarrow> x \<in> set (open_set st)
      \<Longrightarrow> y \<in> set (open_set st) \<Longrightarrow> ev \<in> set (lin G (seq y))
      \<Longrightarrow> ev \<notin> set (lin G (seq x))
      \<Longrightarrow> f_score (ent G ev) \<le> f_score x \<or> f_score (ent G ev) \<le> f_score y"
    by (auto simp: inv_frontier_def)
  have lin_exp: "set (lin G (seq y)) \<subseteq> expanded G" if "y \<in> set (open_set st)" for y
  proof -
    from opn that have "seq y < inserted st" by (simp add: inv_open_def)
    from entries [OF this] show ?thesis by (simp add: entry_ok_def)
  qed
  have c_frontier: "inv_frontier ?st ?G"
    unfolding inv_frontier_def
  proof (intro ballI impI)
    fix ev x y
    assume ev: "ev \<in> expanded ?G" and x: "x \<in> set (open_set ?st)"
      and y: "y \<in> set (open_set ?st)"
      and io: "ev \<in> set (lin ?G (seq y)) \<and> ev \<notin> set (lin ?G (seq x))"
    from x y have xo: "x \<in> set (open_set st)" and yo: "y \<in> set (open_set st)"
      by (simp_all add: rest)
    from io lin_exp [OF yo] have "ev \<in> expanded G" by auto
    from K [OF this xo yo] io
    show "f_score (ent ?G ev) \<le> f_score x \<or> f_score (ent ?G ev) \<le> f_score y" by simp
  qed
  have "inv_unique ?st ?G = inv_unique st G" "inv_current ?st ?G = inv_current st G"
    by (simp_all add: inv_unique_def inv_current_def)
  then have c_inv: "search_inv h ts start ?st ?G"
    using c_root c_entries c_children c_open c_rel c_frontier uniq cur
    by (simp add: search_inv_def)
  have bm: "bestG ?st (node m) = Some (g_score m)"
    using okm fresh by auto
  have c_rel1: "(expanded ?G - {seq m}) \<times> t_id ` set ts \<subseteq> rel ?G"
    using settled by auto
  have c_ef: "expanding_frontier m ?st ?G"
    unfolding expanding_frontier_def
  proof (intro conjI ballI impI)
    fix x assume "x \<in> set (open_set ?st)"
    with least show "seq m \<in> set (lin ?G (seq x)) \<or> f_score m \<le> f_score x"
      by (simp add: rest)
  next
    fix ev y
    assume ev: "ev \<in> expanded ?G" and y: "y \<in> set (open_set ?st)"
      and io: "ev \<in> set (lin ?G (seq m)) \<and> ev \<notin> set (lin ?G (seq y))"
    from y have yo: "y \<in> set (open_set st)" by (simp add: rest)
    from io linm have ev': "ev \<in> expanded G" by auto
    from K [OF ev' yo m] io least yo
    show "f_score (ent ?G ev) \<le> f_score y" by force
  next
    fix ev y
    assume ev: "ev \<in> expanded ?G" and y: "y \<in> set (open_set ?st)"
      and io: "ev \<in> set (lin ?G (seq y)) \<and> ev \<notin> set (lin ?G (seq m)) \<and> ev \<noteq> seq m"
    from y have yo: "y \<in> set (open_set st)" by (simp add: rest)
    from io ev have ev': "ev \<in> expanded G" by auto
    from K [OF ev' m yo] io least yo
    show "f_score (ent ?G ev) \<le> f_score y" by force
  qed
  from c_inv em s bm c_rel1 c_ef show ?thesis
    by (simp add: expanding_def)
qed

lemma found_walk:
  assumes I: "search_inv h ts start st G"
    and settled: "expanded G \<times> t_id ` set ts \<subseteq> rel G"
    and m: "m \<in> set (open_set st)"
    and least: "\<forall>x \<in> set (open_set st). f_score m \<le> f_score x"
    and fresh: "\<not> (case bestG st (node m) of None \<Rightarrow> False | Some b \<Rightarrow> b < g_score m)"
  shows "walk (cameFrom st) start (node m) [] = Some (vp G (seq m))
         \<and> sum_list (map (cost_of ts) (vp G (seq m))) = g_score m"
proof -
  define cur where "cur q \<longleftrightarrow> bestG st (node (ent G q)) = Some (g_score (ent G q))" for q
  define L where "L = set (lin G (seq m) @ [seq m])"
  from I have root: "inv_root start st G"
    and entries: "\<And>x. x < inserted st \<Longrightarrow> entry_ok h ts st G x"
    and children: "\<And>x. x < inserted st \<Longrightarrow> x \<noteq> 0 \<Longrightarrow> child_ok ts start st G x"
    and opn: "inv_open st G" and uniq: "inv_unique st G" and current: "inv_current st G"
    and rl: "inv_rel ts st G" and fr: "inv_frontier st G"
    by (simp_all add: search_inv_def)
  from root have expq: "\<And>x. x \<in> expanded G \<Longrightarrow> x < inserted st"
    and start0: "node (ent G 0) = start" "lin G 0 = []" "vp G 0 = []"
    by (simp_all add: inv_root_def)
  from opn m have em: "ent G (seq m) = m" and mq: "seq m < inserted st"
    by (auto simp: inv_open_def)
  note okm = entries [OF mq, unfolded entry_ok_def em]
  from okm fresh have curm: "cur (seq m)" by (auto simp: cur_def em)
  from okm have linm: "set (lin G (seq m)) \<subseteq> expanded G" by blast
  have Lq: "q < inserted st" if "q \<in> L" for q
    using that linm expq mq by (auto simp: L_def)
  have Lpar: "par G q \<in> set (lin G (seq m)) \<and> par G q < q \<and> par G q \<in> expanded G"
    if q: "q \<in> L" "q \<noteq> 0" for q
  proof -
    note ok = children [OF Lq [OF q(1)] q(2), unfolded child_ok_def]
    from ok have p: "par G q \<in> set (lin G q)" by simp
    have "set (lin G q) \<subseteq> set (lin G (seq m))"
    proof (cases "q = seq m")
      case False
      with q(1) have "q \<in> set (lin G (seq m))" by (simp add: L_def)
      with okm show ?thesis by blast
    qed simp
    with p ok show ?thesis by auto
  qed

  have step: "cur (par G q)" if q: "q \<in> L" "q \<noteq> 0" and cq: "cur q" for q
  proof (rule ccontr)
    assume not: "\<not> cur (par G q)"
    let ?a = "par G q"
    from Lpar [OF q] have am: "?a \<in> set (lin G (seq m))" and aq: "?a < q"
      and ae: "?a \<in> expanded G" by simp_all
    from expq [OF ae] have ai: "?a < inserted st" .
    note oka = entries [OF ai, unfolded entry_ok_def]
    note okq = entries [OF Lq [OF q(1)], unfolded entry_ok_def]
    note chq = children [OF Lq [OF q(1)] q(2), unfolded child_ok_def]
    from oka not obtain b where b: "bestG st (node (ent G ?a)) = Some b"
      "b < g_score (ent G ?a)" by (auto simp: cur_def)
    from current b(1) obtain q' where q': "q' < inserted st"
      "node (ent G q') = node (ent G ?a)" "g_score (ent G q') = b"
      by (auto simp: inv_current_def)
    note okq' = entries [OF q'(1), unfolded entry_ok_def]
    from chq okq have gq: "g_score (ent G q) = g_score (ent G ?a) + cost_of ts (via G q)"
    proof -
      from chq have "vp G q = vp G ?a @ [via G q]" by simp
      then have "sum_list (map (cost_of ts) (vp G q))
          = sum_list (map (cost_of ts) (vp G ?a)) + cost_of ts (via G q)" by simp
      with okq oka show ?thesis by simp
    qed
    from okq' q'(2,3) b(1) consider "q' \<in> expanded G" | "ent G q' \<in> set (open_set st)"
      by auto
    then show False
    proof cases
      case 1
      from chq have "via G q \<in> t_id ` set ts" by (metis imageI)
      with 1 settled have "(q', via G q) \<in> rel G" by auto
      with rl have "handled ts st G q' (via G q)" by (auto simp: inv_rel_def)
      with Lq [OF q(1)] q(2) q'(2) obtain b' where
        "bestG st (node (ent G q)) = Some b'" "b' \<le> g_score (ent G q') + cost_of ts (via G q)"
        by (auto simp: handled_def)
      with cq q'(3) b(2) gq show False by (simp add: cur_def)
    next
      case 2
      let ?x = "ent G q'"
      from okq' have sx: "seq ?x = q'" by simp
      have out: "?a \<notin> set (lin G (seq ?x))"
      proof
        assume "?a \<in> set (lin G (seq ?x))"
        with okq' sx have "g_score (ent G ?a) \<le> g_score (ent G q')" by auto
        with q'(3) b(2) show False by simp
      qed
      from fr ae 2 m am out
      have "f_score (ent G ?a) \<le> f_score ?x \<or> f_score (ent G ?a) \<le> f_score m"
        by (auto simp: inv_frontier_def)
      moreover from oka okq' q'(2,3) b(2) have "f_score ?x < f_score (ent G ?a)" by auto
      moreover from least 2 have "f_score m \<le> f_score ?x" by simp
      ultimately show False by linarith
    qed
  qed

  have all_cur: "q \<in> L \<Longrightarrow> cur q \<Longrightarrow> \<forall>a \<in> set (lin G q). cur a" for q
  proof (induction q rule: less_induct)
    case (less q)
    show ?case
    proof (cases "q = 0")
      case True
      with start0 show ?thesis by simp
    next
      case False
      from Lpar [OF less.prems(1) False] have p: "par G q \<in> L" "par G q < q"
        by (simp_all add: L_def)
      from step [OF less.prems(1) False less.prems(2)] have c: "cur (par G q)" .
      from less.IH [OF p(2) p(1) c] have "\<forall>a \<in> set (lin G (par G q)). cur a" .
      moreover from children [OF Lq [OF less.prems(1)] False]
      have "lin G q = lin G (par G q) @ [par G q]" by (simp add: child_ok_def)
      ultimately show ?thesis using c by simp
    qed
  qed
  have mL: "seq m \<in> L" by (simp add: L_def)
  from all_cur [OF mL curm] curm have curL: "\<And>q. q \<in> L \<Longrightarrow> cur q"
    by (auto simp: L_def)

  have link: "cameFrom st (node (ent G q)) = Some (node (ent G (par G q)), via G q)"
    if q: "q \<in> L" "q \<noteq> 0" for q
  proof -
    from curL [OF q(1)] current obtain q' where q': "q' < inserted st"
      "node (ent G q') = node (ent G q)" "g_score (ent G q') = g_score (ent G q)"
      "cameFrom st (node (ent G q))
         = (if q' = 0 then None else Some (node (ent G (par G q')), via G q'))"
      by (auto simp: inv_current_def cur_def)
    have "q' = q"
    proof (rule ccontr)
      assume "q' \<noteq> q"
      then consider "q' < q" | "q < q'" by linarith
      then show False
        using uniq q' Lq [OF q(1)] by cases (force simp: inv_unique_def)+
    qed
    with q'(4) q(2) show ?thesis by simp
  qed

  have walks: "q \<in> L \<Longrightarrow> walk (cameFrom st) start (node (ent G q)) acc = Some (vp G q @ acc)"
    for q acc
  proof (induction q arbitrary: acc rule: less_induct)
    case (less q)
    show ?case
    proof (cases "q = 0")
      case True
      with start0 show ?thesis by (subst walk.simps) simp
    next
      case False
      note ch = children [OF Lq [OF less.prems] False, unfolded child_ok_def]
      from Lpar [OF less.prems False] have p: "par G q \<in> L" "par G q < q"
        by (simp_all add: L_def)
      from ch have ns: "node (ent G q) \<noteq> start" by simp
      have "walk (cameFrom st) start (node (ent G q)) acc
          = walk (cameFrom st) start (node (ent G (par G q))) (via G q # acc)"
        using ns link [OF less.prems False] by (subst walk.simps) simp
      also have "\<dots> = Some (vp G (par G q) @ via G q # acc)"
        by (rule less.IH [OF p(2) p(1)])
      finally show ?thesis using ch by simp
    qed
  qed
  from walks [OF mL, of "[]"] em okm show ?thesis by simp
qed

lemma search_found:
  "distinct (map t_id ts) \<Longrightarrow> \<forall>t \<in> set ts. 0 \<le> t_cost t \<Longrightarrow>
   \<exists>G. search_inv h ts start st G \<and> expanded G \<times> t_id ` set ts \<subseteq> rel G \<Longrightarrow>
   search h goal ts bound k st = Inr (Found m s st') \<Longrightarrow>
   \<exists>p. walk (cameFrom st') start (node m) [] = Some p
       \<and> sum_list (map (cost_of ts) p) = g_score m"
proof (induction h goal ts bound k st rule: search.induct)
  case (1 h goal ts bound k st)
  note dist = "1.prems"(1) and nonneg = "1.prems"(2) and run = "1.prems"(4)
  from "1.prems"(3) obtain G where I: "search_inv h ts start st G"
    and settled: "expanded G \<times> t_id ` set ts \<subseteq> rel G" by blast
  show ?case
  proof (cases "open_set st")
    case Nil
    with run show ?thesis by (subst (asm) search.simps) simp
  next
    case (Cons a rest)
    define x where "x = pick a rest"
    define xa where "xa = st\<lparr>open_set := remove1 x (a # rest)\<rparr>"
    have xin: "x \<in> set (open_set st)"
      using pick_mem [of a rest] by (simp add: x_def Cons)
    have least: "\<forall>y \<in> set (open_set st). f_score x \<le> f_score y"
      using pick_min [of _ a rest] by (simp add: x_def Cons)
    have xa: "xa = st\<lparr>open_set := remove1 x (open_set st)\<rparr>"
      by (simp only: xa_def Cons)
    have eq: "search h goal ts bound k st =
        (if (case bestG st (node x) of None \<Rightarrow> False | Some b \<Rightarrow> b < g_score x)
         then search h goal ts bound k xa
         else
           (case nodes st (node x) of
              None \<Rightarrow> search h goal ts bound k xa
            | Some s \<Rightarrow>
                (case goalsSatisfied goal s of
                   Inl e \<Rightarrow> Inl e
                 | Inr sat \<Rightarrow>
                     if sat then Inr (Found x s xa)
                     else if bound \<le> k then Inr Aborted
                     else
                       (case expand h ts (node x) s (g_score x) xa of
                          Inl e \<Rightarrow> Inl e
                        | Inr st2 \<Rightarrow> search h goal ts bound (Suc k) st2))))"
      unfolding x_def xa_def by (subst search.simps) (simp only: Cons list.case Let_def)
    show ?thesis
    proof (cases "case bestG st (node x) of None \<Rightarrow> False | Some b \<Rightarrow> b < g_score x")
      case True
      then obtain b where b: "bestG st (node x) = Some b" "b < g_score x"
        by (auto split: option.splits)
      from skip_inv [OF I xin b] have "search_inv h ts start xa G" by (simp add: xa)
      with settled have inv': "\<exists>G. search_inv h ts start xa G
          \<and> expanded G \<times> t_id ` set ts \<subseteq> rel G" by blast
      from run True have "search h goal ts bound k xa = Inr (Found m s st')"
        by (simp add: eq)
      from "1.IH"(1) [OF Cons x_def xa_def True dist nonneg inv' this] show ?thesis .
    next
      case False
      note fresh = this
      from I xin have xq: "seq x < inserted st" and ex: "ent G (seq x) = x"
        by (auto simp: search_inv_def inv_open_def)
      from I xq have "entry_ok h ts st G (seq x)" by (simp add: search_inv_def)
      with ex obtain sx where sx: "nodes st (node x) = Some sx"
        by (auto simp: entry_ok_def)
      show ?thesis
      proof (cases "goalsSatisfied goal sx")
        case (Inl err)
        with run fresh sx show ?thesis
          by (simp add: eq)
      next
        case (Inr sat)
        show ?thesis
        proof (cases sat)
          case True
          with run fresh sx Inr have "m = x" "st' = xa"
            by (simp_all add: eq)
          moreover from found_walk [OF I settled xin least fresh]
          have "walk (cameFrom st) start (node x) [] = Some (vp G (seq x))
              \<and> sum_list (map (cost_of ts) (vp G (seq x))) = g_score x" .
          ultimately show ?thesis by (auto simp: xa)
        next
          case False
          note unsat = this
          show ?thesis
          proof (cases "bound \<le> k")
            case True
            with run fresh sx Inr unsat show ?thesis
              by (simp add: eq)
          next
            case False
            note room = this
            show ?thesis
            proof (cases "expand h ts (node x) sx (g_score x) xa")
              case (Inl err)
              with run fresh sx \<open>goalsSatisfied goal sx = Inr sat\<close> unsat room
              show ?thesis by (simp add: eq)
            next
              case (Inr st2)
              from begin_expanding [OF I settled xin least fresh sx]
              have "expanding h ts start x sx {} xa
                  (G\<lparr>expanded := insert (seq x) (expanded G)\<rparr>)" by (simp add: xa)
              from expand_expanding [OF dist nonneg subset_refl this Inr]
              obtain G2 where "expanding h ts start x sx ({} \<union> t_id ` set ts) st2 G2"
                by blast
              from end_expanding [OF this]
              have inv': "\<exists>G. search_inv h ts start st2 G
                  \<and> expanded G \<times> t_id ` set ts \<subseteq> rel G" by auto
              from run fresh sx \<open>goalsSatisfied goal sx = Inr sat\<close> unsat room Inr
              have "search h goal ts bound (Suc k) st2 = Inr (Found m s st')"
                by (simp add: eq)
              from "1.IH"(3) [OF Cons x_def xa_def fresh sx
                  \<open>goalsSatisfied goal sx = Inr sat\<close> unsat room Inr dist nonneg inv' this]
              show ?thesis .
            qed
          qed
        qed
      qed
    qed
  qed
qed

section \<open>The totals of a plan\<close>

lemma plan_search_totals:
  assumes run: "plan_search h bound ts goal s0 = Some (Inr plan)"
    and dist: "distinct (map t_id ts)" and nonneg: "\<forall>t \<in> set ts. 0 \<le> t_cost t"
  shows "totalSteps plan = length (transitions plan)
     \<and> actions plan = List.map_filter (action_of ts) (transitions plan)
     \<and> totalCost plan = sum_list (map (cost_of ts) (transitions plan))"
proof (cases "search h goal ts bound 0 (initial_search h s0)")
  case (Inl e)
  with run show ?thesis by (simp add: plan_search_def)
next
  case (Inr out)
  show ?thesis
  proof (cases out)
    case (Found m s st)
    with run Inr obtain path where path: "walk (cameFrom st) (identity s0) (node m) [] = Some path"
      and plan: "found_plan ts s0 m s path = Inr plan"
      by (auto simp: plan_search_def)
    have "\<exists>G. search_inv h ts (identity s0) (initial_search h s0) G
        \<and> expanded G \<times> t_id ` set ts \<subseteq> rel G"
      using initial_inv [of h ts s0] by (intro exI conjI, assumption) simp
    moreover from Inr Found
    have "search h goal ts bound 0 (initial_search h s0) = Inr (Found m s st)" by simp
    ultimately obtain p where "walk (cameFrom st) (identity s0) (node m) [] = Some p"
      "sum_list (map (cost_of ts) p) = g_score m"
      using search_found [OF dist nonneg] by blast
    with path have "sum_list (map (cost_of ts) path) = g_score m" by simp
    with plan show ?thesis by (auto simp: found_plan_def split: sum.splits)
  next
    case Unreachable
    with run Inr show ?thesis by (auto simp: plan_search_def no_plan_def split: sum.splits)
  next
    case Aborted
    with run Inr show ?thesis by (auto simp: plan_search_def no_plan_def split: sum.splits)
  qed
qed

lemma plan_search_returns:
  assumes dist: "distinct (map t_id ts)" and nonneg: "\<forall>t \<in> set ts. 0 \<le> t_cost t"
  shows "\<exists>r. plan_search h bound ts goal s0 = Some r"
proof (cases "search h goal ts bound 0 (initial_search h s0)")
  case (Inl e)
  then show ?thesis by (simp add: plan_search_def)
next
  case (Inr out)
  show ?thesis
  proof (cases out)
    case (Found m s st)
    have "\<exists>G. search_inv h ts (identity s0) (initial_search h s0) G
        \<and> expanded G \<times> t_id ` set ts \<subseteq> rel G"
      using initial_inv [of h ts s0] by (intro exI conjI, assumption) simp
    moreover from Inr Found
    have "search h goal ts bound 0 (initial_search h s0) = Inr (Found m s st)" by simp
    ultimately obtain p where "walk (cameFrom st) (identity s0) (node m) [] = Some p"
      using search_found [OF dist nonneg] by blast
    with Inr Found show ?thesis by (simp add: plan_search_def)
  qed (use Inr in \<open>simp_all add: plan_search_def\<close>)
qed

text \<open>
  Claim C6. For every plan that the planner returns for a model whose transition ids are
  distinct and whose costs are not negative: \<open>totalSteps\<close> is the length of
  \<open>transitions\<close>; \<open>actions\<close> lists, in order, the actions of the transitions of the plan
  that carry one, so its length is the number of those transitions; and \<open>totalCost\<close>, the
  \<open>g\<close> of the goal node, is the sum of the costs of the transitions of the plan, which
  are read off the came-from map.
\<close>

theorem plan_totals:
  assumes "generateActionPlan_with h bound vars ts initial goal = Some (Inr plan)"
    and "distinct (map t_id ts)" and "\<forall>t \<in> set ts. 0 \<le> t_cost t"
  shows "totalSteps plan = length (transitions plan)
     \<and> actions plan
         = map the (filter (\<lambda>a. a \<noteq> None) (map (action_of ts) (transitions plan)))
     \<and> length (actions plan)
         = length (filter (\<lambda>i. action_of ts i \<noteq> None) (transitions plan))
     \<and> totalCost plan = sum_list (map (cost_of ts) (transitions plan))"
proof -
  from assms(1) obtain s0 where "plan_search h bound ts goal s0 = Some (Inr plan)"
    by (auto simp: generateActionPlan_with_def split: sum.splits option.splits)
  from plan_search_totals [OF this assms(2,3)]
  have t: "totalSteps plan = length (transitions plan)"
    "actions plan = List.map_filter (action_of ts) (transitions plan)"
    "totalCost plan = sum_list (map (cost_of ts) (transitions plan))" by simp_all
  have "List.map_filter f xs = map the (filter (\<lambda>a. a \<noteq> None) (map f xs))" for f :: "string \<Rightarrow> string option" and xs
    by (induction xs) (auto split: option.splits)
  moreover have "length (List.map_filter f xs) = length (filter (\<lambda>i. f i \<noteq> None) xs)"
    for f :: "string \<Rightarrow> string option" and xs
    by (induction xs) (auto split: option.splits)
  ultimately show ?thesis using t by simp
qed

lemmas planner_eval =
  generateActionPlan_with_def plan_search_def initial_search_def identity_def
  validate_def check_condition_def check_effect_def check_typing_def
  operand_type_def comparison_types_def assignment_types_def
  relax_def Let_def before_def found_plan_def no_plan_def state_values_def
  action_of_def cost_of_def
  heuristic_def variable_weight_def distance_def

lemma generateActionPlan_with_returns:
  assumes "distinct (map t_id ts)" and "\<forall>t \<in> set ts. 0 \<le> t_cost t"
  shows "\<exists>r. generateActionPlan_with h bound vars ts initial goal = Some r"
  using plan_search_returns [OF assms]
  by (auto simp: generateActionPlan_with_def split: sum.splits option.splits)

text \<open>
  C6 at scenario S4 of the spec: from \<open>x = 0\<close> the goal \<open>x = 10\<close> is reached by firing
  the cheap transition twice, at the total cost 2.
\<close>

theorem plan_totals_witness:
  "totalSteps
     \<lparr>actions = [''add'', ''add''], transitions = [''t_two_small'', ''t_two_small''],
      totalSteps = 2, totalCost = 2,
      initialState = [VariableValue_toGraphQL \<lparr>variableId = ''x'', value = VInt 0\<rparr>],
      finalState = [VariableValue_toGraphQL \<lparr>variableId = ''x'', value = VInt 10\<rparr>],
      status = ''FOUND''\<rparr> = length [''t_two_small'', ''t_two_small'']
   \<and> (2 :: rat) = sum_list (map (cost_of
        [example_transition ''t_big'' [] [example_effect ''x'' ''SET'' (Literal (VInt 10))] None 5,
         example_transition ''t_two_small'' [example_condition ''x'' ''LT'' (Literal (VInt 10))]
           [example_effect ''x'' ''ADD'' (Literal (VInt 5))] (Some ''add'') 1])
        [''t_two_small'', ''t_two_small''])"
proof -
  let ?vars = "[example_variable ''x'' ''INT'']"
  let ?ts = "[example_transition ''t_big'' [] [example_effect ''x'' ''SET'' (Literal (VInt 10))] None 5,
         example_transition ''t_two_small'' [example_condition ''x'' ''LT'' (Literal (VInt 10))]
           [example_effect ''x'' ''ADD'' (Literal (VInt 5))] (Some ''add'') 1]"
  let ?goal = "[example_condition ''x'' ''EQ'' (Literal (VInt 10))]"
  let ?plan = "\<lparr>actions = [''add'', ''add''], transitions = [''t_two_small'', ''t_two_small''],
      totalSteps = 2, totalCost = 2,
      initialState = [VariableValue_toGraphQL \<lparr>variableId = ''x'', value = VInt 0\<rparr>],
      finalState = [VariableValue_toGraphQL \<lparr>variableId = ''x'', value = VInt 10\<rparr>],
      status = ''FOUND''\<rparr>"
  have run: "generateActionPlan_with (heuristic ?vars ?goal) 100000 ?vars ?ts
      [example_int ''x'' 0] ?goal = Some (Inr ?plan)"
    by (simp add: planner_eval semantics_eval example_eval search.simps walk.simps)
  have d: "distinct (map t_id ?ts)" by (simp add: example_transition_def)
  have n: "\<forall>t \<in> set ?ts. 0 \<le> t_cost t" by (simp add: example_transition_def)
  from plan_totals [OF run d n] show ?thesis by simp
qed


end
